theory Spec2Isabelle
  imports Main "HOL-Library.Word"
begin

section \<open>Bytes, exceptions and raw buffers\<close>

text \<open>
  The packet layer of \<^verbatim>\<open>src/src/Packet.cpp\<close> gives meaning to raw bytes: a packet is
  a \<^verbatim>\<open>char\<close> buffer that is reinterpreted as one of three structs.  A buffer is a list
  of bytes here, and a struct field is a read at the field's fixed offset.  The host is
  little-endian (\<^verbatim>\<open>E57_BIGENDIAN\<close> is not defined, every \<^verbatim>\<open>swab\<close> is the empty inline
  function of the headers), so a multi-byte field is decoded low byte first.

  An exception is a value: every \<^verbatim>\<open>throw E57_EXCEPTION2(code, ...)\<close> of the source is
  \<open>Inl code\<close>; the context string of the exception is dropped.  Three more outcomes
  are written out because HOL would hide them: \<open>STD_OUT_OF_RANGE\<close> is what
  \<^verbatim>\<open>std::vector::at\<close> throws, \<open>BUFFER_OVERRUN\<close> marks an access outside the buffer
  (undefined behaviour in C++), and \<open>E57_ERROR_READ_FAILED\<close> is the failure of the file
  collaborator.
\<close>

type_synonym byte = "8 word"

datatype ErrorCode =
    E57_ERROR_BAD_CV_PACKET
  | E57_ERROR_INTERNAL
  | E57_ERROR_READ_FAILED
  | STD_OUT_OF_RANGE
  | BUFFER_OVERRUN

definition E57_INDEX_PACKET :: byte where
  "E57_INDEX_PACKET = 0"

definition E57_DATA_PACKET :: byte where
  "E57_DATA_PACKET = 1"

definition E57_EMPTY_PACKET :: byte where
  "E57_EMPTY_PACKET = 2"

definition E57_DATA_PACKET_MAX :: nat where
  "E57_DATA_PACKET_MAX = 64 * 1024"

text \<open>
  \<^verbatim>\<open>unsigned\<close> is 32 bits wide and \<^verbatim>\<open>size_t\<close> 64 bits; a value stored in a variable of
  one of these types is reduced modulo the width.
\<close>

definition u32 :: "nat \<Rightarrow> nat" where
  "u32 n = n mod 4294967296"

definition usize :: "nat \<Rightarrow> nat" where
  "usize n = n mod 18446744073709551616"

definition read_u8 :: "byte list \<Rightarrow> nat \<Rightarrow> ErrorCode + byte" where
  "read_u8 buf i = (if i < length buf then Inr (buf ! i) else Inl BUFFER_OVERRUN)"

definition le16 :: "byte \<Rightarrow> byte \<Rightarrow> 16 word" where
  "le16 lo hi = of_nat (unat lo + 256 * unat hi)"

definition read_u16 :: "byte list \<Rightarrow> nat \<Rightarrow> ErrorCode + 16 word" where
  "read_u16 buf i =
     (if i + 1 < length buf then Inr (le16 (buf ! i) (buf ! (i + 1))) else Inl BUFFER_OVERRUN)"

fun le_nat :: "byte list \<Rightarrow> nat" where
  "le_nat [] = 0"
| "le_nat (b # bs) = unat b + 256 * le_nat bs"

section \<open>Index packets\<close>

text \<open>
  \<^verbatim>\<open>struct IndexPacket\<close>, lines 6-31 of \<^verbatim>\<open>Packet.cpp\<close>: a 16-byte fixed part followed by
  \<^verbatim>\<open>entries[MAX_ENTRIES]\<close>, 16 bytes each.  The struct is the whole packet, so
  \<^verbatim>\<open>sizeof(IndexPacket)\<close> is \<open>16 + 16 * 2048\<close>, which is also what the constructor
  (line 538) insists on.
\<close>

definition MAX_ENTRIES :: nat where
  "MAX_ENTRIES = 2048"

definition sizeof_IndexPacket :: nat where
  "sizeof_IndexPacket = 16 + 16 * MAX_ENTRIES"

record IndexPacketEntry =
  chunkRecordNumber :: "64 word"
  chunkPhysicalOffset :: "64 word"

record IndexPacket =
  packetType :: byte
  packetFlags :: byte
  packetLogicalLengthMinus1 :: "16 word"
  entryCount :: "16 word"
  indexLevel :: byte
  reserved1 :: "byte list"

text \<open>The fixed fields at offsets 0, 1, 2, 4, 6 and 7..15.\<close>

definition IndexPacket_at :: "byte list \<Rightarrow> ErrorCode + IndexPacket" where
  "IndexPacket_at buf =
     (if length buf < 16 then Inl BUFFER_OVERRUN
      else Inr \<lparr> packetType = buf ! 0, packetFlags = buf ! 1,
                 packetLogicalLengthMinus1 = le16 (buf ! 2) (buf ! 3),
                 entryCount = le16 (buf ! 4) (buf ! 5),
                 indexLevel = buf ! 6,
                 reserved1 = take 9 (drop 7 buf) \<rparr>)"

text \<open>\<^verbatim>\<open>entries[i]\<close>: two little-endian \<^verbatim>\<open>uint64_t\<close> at offset \<open>16 + 16 * i\<close>.\<close>

definition IndexPacket_entries :: "byte list \<Rightarrow> nat \<Rightarrow> ErrorCode + IndexPacketEntry" where
  "IndexPacket_entries buf i =
     (if length buf < 16 + 16 * i + 16 then Inl BUFFER_OVERRUN
      else Inr \<lparr> chunkRecordNumber = of_nat (le_nat (take 8 (drop (16 + 16 * i) buf))),
                 chunkPhysicalOffset = of_nat (le_nat (take 8 (drop (16 + 16 * i + 8) buf))) \<rparr>)"

text \<open>The loop over \<^verbatim>\<open>reserved1\<close>, lines 582-585.\<close>

fun verify_reserved1 :: "byte list \<Rightarrow> ErrorCode + unit" where
  "verify_reserved1 [] = Inr ()"
| "verify_reserved1 (b # bs) =
     (if b \<noteq> 0 then Inl E57_ERROR_BAD_CV_PACKET else verify_reserved1 bs)"

text \<open>
  A loop that compares every byte at the given positions with zero: the padding loops
  of \<^verbatim>\<open>IndexPacket::verify\<close> (lines 605-608) and of \<^verbatim>\<open>DataPacket::verify\<close>
  (lines 414-420).
\<close>

fun verify_padding :: "byte list \<Rightarrow> nat list \<Rightarrow> ErrorCode + unit" where
  "verify_padding buf [] = Inr ()"
| "verify_padding buf (i # is) =
     (case read_u8 buf i of
        Inl e \<Rightarrow> Inl e
      | Inr b \<Rightarrow> if b \<noteq> 0 then Inl E57_ERROR_BAD_CV_PACKET else verify_padding buf is)"

text \<open>The loop over the entries, lines 611-643, with its four checks in order.\<close>

fun verify_entries :: "byte list \<Rightarrow> 64 word \<Rightarrow> 64 word \<Rightarrow> nat list \<Rightarrow> ErrorCode + unit" where
  "verify_entries buf totalRecordCount fileSize [] = Inr ()"
| "verify_entries buf totalRecordCount fileSize (i # is) =
     (case IndexPacket_entries buf i of
        Inl e \<Rightarrow> Inl e
      | Inr cur \<Rightarrow>
         (case (if i > 0 then IndexPacket_entries buf (i - 1) else Inr cur) of
            Inl e \<Rightarrow> Inl e
          | Inr prev \<Rightarrow>
             if totalRecordCount > 0 \<and> chunkRecordNumber cur \<ge> totalRecordCount
               then Inl E57_ERROR_BAD_CV_PACKET
             else if i > 0 \<and> chunkRecordNumber prev \<ge> chunkRecordNumber cur
               then Inl E57_ERROR_BAD_CV_PACKET
             else if fileSize > 0 \<and> chunkPhysicalOffset cur \<ge> fileSize
               then Inl E57_ERROR_BAD_CV_PACKET
             else if i > 0 \<and> chunkPhysicalOffset prev \<ge> chunkPhysicalOffset cur
               then Inl E57_ERROR_BAD_CV_PACKET
             else verify_entries buf totalRecordCount fileSize is))"

text \<open>
  \<^verbatim>\<open>IndexPacket::verify\<close>, lines 546-645.  The first argument says whether the code is
  compiled with \<^verbatim>\<open>E57_MAX_DEBUG\<close>, which adds the checks of lines 602-644.
\<close>

definition IndexPacket_verify ::
    "bool \<Rightarrow> byte list \<Rightarrow> nat \<Rightarrow> 64 word \<Rightarrow> 64 word \<Rightarrow> ErrorCode + unit" where
  "IndexPacket_verify E57_MAX_DEBUG buf bufferLength totalRecordCount fileSize =
     (case IndexPacket_at buf of
        Inl e \<Rightarrow> Inl e
      | Inr ip \<Rightarrow>
         if packetType ip \<noteq> E57_INDEX_PACKET then Inl E57_ERROR_BAD_CV_PACKET
         else let packetLength = u32 (unat (packetLogicalLengthMinus1 ip) + 1) in
           if packetLength < sizeof_IndexPacket then Inl E57_ERROR_BAD_CV_PACKET
           else if packetLength mod 4 \<noteq> 0 then Inl E57_ERROR_BAD_CV_PACKET
           else if entryCount ip = 0 then Inl E57_ERROR_BAD_CV_PACKET
           else if unat (entryCount ip) > MAX_ENTRIES then Inl E57_ERROR_BAD_CV_PACKET
           else if indexLevel ip > 5 then Inl E57_ERROR_BAD_CV_PACKET
           else if indexLevel ip > 0 \<and> unat (entryCount ip) < 2 then Inl E57_ERROR_BAD_CV_PACKET
           else
             (case verify_reserved1 (reserved1 ip) of
                Inl e \<Rightarrow> Inl e
              | Inr _ \<Rightarrow>
                 if bufferLength > 0 \<and> packetLength > bufferLength
                   then Inl E57_ERROR_BAD_CV_PACKET
                 else let neededLength = u32 (16 + 8 * unat (entryCount ip)) in
                   if packetLength < neededLength then Inl E57_ERROR_BAD_CV_PACKET
                   else if \<not> E57_MAX_DEBUG then Inr ()
                   else
                     (case verify_padding buf [neededLength ..< packetLength] of
                        Inl e \<Rightarrow> Inl e
                      | Inr _ \<Rightarrow>
                         verify_entries buf totalRecordCount fileSize
                           [0 ..< unat (entryCount ip)])))"

section \<open>Empty packets\<close>

text \<open>\<^verbatim>\<open>struct EmptyPacketHeader\<close>, lines 33-48: the four bytes every packet starts with.\<close>

record EmptyPacketHeader =
  packetType :: byte
  reserved1 :: byte
  packetLogicalLengthMinus1 :: "16 word"

definition sizeof_EmptyPacketHeader :: nat where
  "sizeof_EmptyPacketHeader = 4"

definition EmptyPacketHeader_at :: "byte list \<Rightarrow> ErrorCode + EmptyPacketHeader" where
  "EmptyPacketHeader_at buf =
     (if length buf < sizeof_EmptyPacketHeader then Inl BUFFER_OVERRUN
      else Inr \<lparr> packetType = buf ! 0, reserved1 = buf ! 1,
                 packetLogicalLengthMinus1 = le16 (buf ! 2) (buf ! 3) \<rparr>)"

text \<open>\<^verbatim>\<open>EmptyPacketHeader::verify\<close>, lines 712-733.\<close>

definition EmptyPacketHeader_verify :: "EmptyPacketHeader \<Rightarrow> nat \<Rightarrow> ErrorCode + unit" where
  "EmptyPacketHeader_verify hp bufferLength =
     (if packetType hp \<noteq> E57_EMPTY_PACKET then Inl E57_ERROR_BAD_CV_PACKET
      else let packetLength = u32 (unat (packetLogicalLengthMinus1 hp) + 1) in
        if packetLength < sizeof_EmptyPacketHeader then Inl E57_ERROR_BAD_CV_PACKET
        else if packetLength mod 4 \<noteq> 0 then Inl E57_ERROR_BAD_CV_PACKET
        else if bufferLength > 0 \<and> packetLength > bufferLength then Inl E57_ERROR_BAD_CV_PACKET
        else Inr ())"

section \<open>Data packets\<close>

text \<open>
  \<^verbatim>\<open>struct DataPacketHeader\<close> of \<^verbatim>\<open>Packet.h\<close>: six bytes.  \<^verbatim>\<open>struct DataPacket\<close> has the
  same six bytes followed by \<^verbatim>\<open>payload[64*1024-6]\<close>.
\<close>

record DataPacketHeader =
  packetType :: byte
  packetFlags :: byte
  packetLogicalLengthMinus1 :: "16 word"
  bytestreamCount :: "16 word"

definition sizeof_DataPacketHeader :: nat where
  "sizeof_DataPacketHeader = 6"

text \<open>The \<^verbatim>\<open>reinterpret_cast\<close> of a buffer to a header: the fields at offsets 0, 1, 2, 4.\<close>

definition DataPacketHeader_at :: "byte list \<Rightarrow> ErrorCode + DataPacketHeader" where
  "DataPacketHeader_at buf =
     (if length buf < sizeof_DataPacketHeader then Inl BUFFER_OVERRUN
      else Inr \<lparr> packetType = buf ! 0, packetFlags = buf ! 1,
                 packetLogicalLengthMinus1 = le16 (buf ! 2) (buf ! 3),
                 bytestreamCount = le16 (buf ! 4) (buf ! 5) \<rparr>)"

text \<open>\<^verbatim>\<open>DataPacketHeader::verify\<close>, lines 311-345.\<close>

definition DataPacketHeader_verify :: "DataPacketHeader \<Rightarrow> nat \<Rightarrow> ErrorCode + unit" where
  "DataPacketHeader_verify hp bufferLength =
     (if packetType hp \<noteq> E57_DATA_PACKET then Inl E57_ERROR_BAD_CV_PACKET
      else let packetLength = u32 (unat (packetLogicalLengthMinus1 hp) + 1) in
        if packetLength < sizeof_DataPacketHeader then Inl E57_ERROR_BAD_CV_PACKET
        else if packetLength mod 4 \<noteq> 0 then Inl E57_ERROR_BAD_CV_PACKET
        else if bufferLength > 0 \<and> packetLength > bufferLength then Inl E57_ERROR_BAD_CV_PACKET
        else if bytestreamCount hp = 0 then Inl E57_ERROR_BAD_CV_PACKET
        else if usize (sizeof_DataPacketHeader + 2 * unat (bytestreamCount hp)) > packetLength
          then Inl E57_ERROR_BAD_CV_PACKET
        else Inr ())"

text \<open>
  \<^verbatim>\<open>bsbLength[i]\<close>: the length table is an array of \<^verbatim>\<open>uint16_t\<close> at the start of the
  payload, so entry \<open>i\<close> is at byte offset \<open>6 + 2 * i\<close>.
\<close>

definition bsbLength :: "byte list \<Rightarrow> nat \<Rightarrow> ErrorCode + 16 word" where
  "bsbLength buf i = read_u16 buf (sizeof_DataPacketHeader + 2 * i)"

text \<open>
  The summing loops of \<^verbatim>\<open>DataPacket::verify\<close> (lines 393-396) and of
  \<^verbatim>\<open>DataPacket::getBytestream\<close> (lines 446-447): the indices the loop visits, in order,
  and the \<^verbatim>\<open>unsigned\<close> accumulator.
\<close>

fun sum_bsbLength :: "byte list \<Rightarrow> nat list \<Rightarrow> nat \<Rightarrow> ErrorCode + nat" where
  "sum_bsbLength buf [] totalByteCount = Inr totalByteCount"
| "sum_bsbLength buf (i # is) totalByteCount =
     (case bsbLength buf i of
        Inl e \<Rightarrow> Inl e
      | Inr l \<Rightarrow> sum_bsbLength buf is (u32 (totalByteCount + unat l)))"

text \<open>\<^verbatim>\<open>DataPacket::verify\<close>, lines 380-421.\<close>

definition DataPacket_verify :: "byte list \<Rightarrow> nat \<Rightarrow> ErrorCode + unit" where
  "DataPacket_verify buf bufferLength =
     (case DataPacketHeader_at buf of
        Inl e \<Rightarrow> Inl e
      | Inr hp \<Rightarrow>
         (case DataPacketHeader_verify hp bufferLength of
            Inl e \<Rightarrow> Inl e
          | Inr _ \<Rightarrow>
             (case sum_bsbLength buf [0 ..< unat (bytestreamCount hp)] 0 of
                Inl e \<Rightarrow> Inl e
              | Inr totalStreamByteCount \<Rightarrow>
                 let packetLength = u32 (unat (packetLogicalLengthMinus1 hp) + 1);
                     needed = u32 (usize (sizeof_DataPacketHeader + 2 * unat (bytestreamCount hp)
                                          + totalStreamByteCount))
                 in if needed > packetLength \<or> u32 (needed + 3) < packetLength
                    then Inl E57_ERROR_BAD_CV_PACKET
                    else verify_padding buf [needed ..< packetLength])))"

text \<open>
  \<^verbatim>\<open>DataPacket::getBytestream\<close>, lines 423-462.  The returned pointer
  \<^verbatim>\<open>&streamBase[totalPreceeding]\<close> is the offset of the stream in the packet, and the
  reference parameter \<^verbatim>\<open>byteCount\<close> is the second component of the result.
\<close>

definition DataPacket_getBytestream :: "byte list \<Rightarrow> nat \<Rightarrow> ErrorCode + nat \<times> nat" where
  "DataPacket_getBytestream buf bytestreamNumber =
     (case DataPacketHeader_at buf of
        Inl e \<Rightarrow> Inl e
      | Inr hp \<Rightarrow>
         if packetType hp \<noteq> E57_DATA_PACKET then Inl E57_ERROR_BAD_CV_PACKET
         else if bytestreamNumber \<ge> unat (bytestreamCount hp) then Inl E57_ERROR_INTERNAL
         else
           (case sum_bsbLength buf [0 ..< bytestreamNumber] 0 of
              Inl e \<Rightarrow> Inl e
            | Inr totalPreceeding \<Rightarrow>
               (case bsbLength buf bytestreamNumber of
                  Inl e \<Rightarrow> Inl e
                | Inr l \<Rightarrow>
                   let byteCount = unat l;
                       streamBase = sizeof_DataPacketHeader + 2 * unat (bytestreamCount hp)
                   in if usize (sizeof_DataPacketHeader + 2 * unat (bytestreamCount hp)
                                + totalPreceeding + byteCount)
                         > u32 (unat (packetLogicalLengthMinus1 hp) + 1)
                      then Inl E57_ERROR_INTERNAL
                      else Inr (streamBase + totalPreceeding, byteCount))))"

text \<open>\<^verbatim>\<open>DataPacket::getBytestreamBufferLength\<close>, lines 464-470.\<close>

definition DataPacket_getBytestreamBufferLength :: "byte list \<Rightarrow> nat \<Rightarrow> ErrorCode + nat" where
  "DataPacket_getBytestreamBufferLength buf bytestreamNumber =
     (case DataPacket_getBytestream buf bytestreamNumber of
        Inl e \<Rightarrow> Inl e
      | Inr (p, byteCount) \<Rightarrow> Inr byteCount)"

section \<open>The checked file\<close>

text \<open>
  Modelled from the spec: \<^verbatim>\<open>CheckedFile\<close> (\<^verbatim>\<open>CheckedFile.h\<close> is included by \<^verbatim>\<open>Packet.cpp\<close>
  but is not among the sources).  The spec gives the packet layer two operations on it,
  \<^verbatim>\<open>seek(logicalOffset)\<close> and \<^verbatim>\<open>read(destinationBuffer, byteCount)\<close>, over a logical
  address space of raw bytes, and lets a read fail with an I/O error.  The file is its
  logical contents and a position; a read that would pass the end of the contents fails
  and delivers nothing.
\<close>

record CheckedFile =
  contents :: "byte list"
  position :: nat

definition CheckedFile_seek :: "CheckedFile \<Rightarrow> nat \<Rightarrow> CheckedFile" where
  "CheckedFile_seek f logicalOffset = f \<lparr> position := logicalOffset \<rparr>"

definition CheckedFile_read :: "CheckedFile \<Rightarrow> nat \<Rightarrow> (ErrorCode + byte list) \<times> CheckedFile" where
  "CheckedFile_read f byteCount =
     (if position f + byteCount \<le> length (contents f)
      then (Inr (take byteCount (drop (position f) (contents f))),
            f \<lparr> position := position f + byteCount \<rparr>)
      else (Inl E57_ERROR_READ_FAILED, f))"

section \<open>The packet read cache\<close>

text \<open>
  \<^verbatim>\<open>class PacketReadCache\<close> and \<^verbatim>\<open>class PacketLock\<close> of \<^verbatim>\<open>Packet.h\<close>.  The counters are
  \<^verbatim>\<open>unsigned\<close>, the offset is \<^verbatim>\<open>uint64_t\<close>; \<^verbatim>\<open>buffer_\<close> is the contents of the array the
  pointer refers to.  The members are named as in the source without the trailing
  underscore (\<^verbatim>\<open>lockCount_\<close> is \<open>lockCount\<close>).  A member function takes the cache
  and returns the cache it leaves behind together with its result, also when it throws:
  what was written before the \<^verbatim>\<open>throw\<close> stays written.  The \<^verbatim>\<open>cache_\<close> pointer of a lock is the cache that is passed
  to the destructor.
\<close>

record CacheEntry =
  logicalOffset :: "64 word"
  buffer :: "byte list"
  lastUsed :: "32 word"

record PacketReadCache =
  lockCount :: "32 word"
  useCount :: "32 word"
  cFile :: CheckedFile
  entries :: "CacheEntry list"

record PacketLock =
  cacheIndex :: nat

text \<open>
  The constructor, lines 56-71.  \<^verbatim>\<open>new char[E57_DATA_PACKET_MAX]\<close> does not initialise
  the array: \<open>uninitialised i\<close> stands for whatever buffer \<open>i\<close> holds at first.
\<close>

definition new_char_array :: "nat \<Rightarrow> byte list \<Rightarrow> byte list" where
  "new_char_array n garbage = take n (garbage @ replicate n 0)"

definition PacketReadCache_ctor ::
    "CheckedFile \<Rightarrow> nat \<Rightarrow> (nat \<Rightarrow> byte list) \<Rightarrow> ErrorCode + PacketReadCache" where
  "PacketReadCache_ctor file packetCount uninitialised =
     (if packetCount = 0 then Inl E57_ERROR_INTERNAL
      else Inr \<lparr> lockCount = 0, useCount = 0, cFile = file,
                 entries = map (\<lambda>i. \<lparr> logicalOffset = 0,
                                         buffer = new_char_array E57_DATA_PACKET_MAX (uninitialised i),
                                         lastUsed = 0 \<rparr>)
                              [0 ..< packetCount] \<rparr>)"

text \<open>\<^verbatim>\<open>PacketReadCache::unlock\<close>, lines 152-163.\<close>

definition unlock :: "PacketReadCache \<Rightarrow> nat \<Rightarrow> ErrorCode option \<times> PacketReadCache" where
  "unlock c lockedEntry =
     (if lockCount c \<noteq> 1 then (Some E57_ERROR_INTERNAL, c)
      else (None, c \<lparr> lockCount := lockCount c - 1 \<rparr>))"

text \<open>
  \<^verbatim>\<open>PacketLock::~PacketLock\<close>, lines 284-295: one call of \<^verbatim>\<open>unlock\<close> inside
  \<^verbatim>\<open>try { ... } catch (...) { }\<close>.
\<close>

definition PacketLock_dtor :: "PacketLock \<Rightarrow> PacketReadCache \<Rightarrow> ErrorCode option \<times> PacketReadCache" where
  "PacketLock_dtor plock cache =
     (case unlock cache (cacheIndex plock) of
        (Some e, cache') \<Rightarrow> (None, cache')
      | (None, cache') \<Rightarrow> (None, cache'))"

text \<open>
  \<^verbatim>\<open>cFile_->read(buffer_, n)\<close> overwrites the first \<open>n\<close> bytes of the buffer and leaves
  the rest as it was.
\<close>

definition buffer_write :: "byte list \<Rightarrow> byte list \<Rightarrow> ErrorCode + byte list" where
  "buffer_write buf bytes =
     (if length bytes \<le> length buf then Inr (bytes @ drop (length bytes) buf)
      else Inl BUFFER_OVERRUN)"

text \<open>The \<^verbatim>\<open>switch\<close> of \<^verbatim>\<open>readPacket\<close>, lines 188-226.\<close>

definition verify_by_type :: "bool \<Rightarrow> byte \<Rightarrow> byte list \<Rightarrow> nat \<Rightarrow> ErrorCode + unit" where
  "verify_by_type E57_MAX_DEBUG ty buf packetLength =
     (if ty = E57_DATA_PACKET then DataPacket_verify buf packetLength
      else if ty = E57_INDEX_PACKET then IndexPacket_verify E57_MAX_DEBUG buf packetLength 0 0
      else if ty = E57_EMPTY_PACKET then
        (case EmptyPacketHeader_at buf of
           Inl e \<Rightarrow> Inl e
         | Inr hp \<Rightarrow> EmptyPacketHeader_verify hp packetLength)
      else Inl E57_ERROR_INTERNAL)"

text \<open>\<^verbatim>\<open>unsigned packetLength = header.packetLogicalLengthMinus1+1\<close>, line 177.\<close>

definition readPacket_packetLength :: "EmptyPacketHeader \<Rightarrow> nat" where
  "readPacket_packetLength header =
     u32 (unat (EmptyPacketHeader.packetLogicalLengthMinus1 header) + 1)"

text \<open>
  \<^verbatim>\<open>PacketReadCache::readPacket\<close> from the second \<^verbatim>\<open>seek\<close> on, lines 183-232: the full read
  into the slot's buffer, the verification, and the bookkeeping.
\<close>

definition readPacket_full ::
    "bool \<Rightarrow> PacketReadCache \<Rightarrow> nat \<Rightarrow> 64 word \<Rightarrow> EmptyPacketHeader \<Rightarrow> nat
       \<Rightarrow> ErrorCode option \<times> PacketReadCache" where
  "readPacket_full E57_MAX_DEBUG c oldestEntry packetLogicalOffset header packetLength =
     (let f = CheckedFile_seek (cFile c) (unat packetLogicalOffset) in
      if oldestEntry \<ge> length (entries c) then (Some STD_OUT_OF_RANGE, c \<lparr> cFile := f \<rparr>)
      else
        (case CheckedFile_read f packetLength of
           (Inl e, f') \<Rightarrow> (Some e, c \<lparr> cFile := f' \<rparr>)
         | (Inr bytes, f') \<Rightarrow>
            (case buffer_write (buffer (entries c ! oldestEntry)) bytes of
               Inl e \<Rightarrow> (Some e, c \<lparr> cFile := f' \<rparr>)
             | Inr buf \<Rightarrow>
                let filled = (entries c ! oldestEntry) \<lparr> buffer := buf \<rparr>;
                    c1 = c \<lparr> cFile := f', entries := (entries c) [oldestEntry := filled] \<rparr>
                in
                  (case verify_by_type E57_MAX_DEBUG (EmptyPacketHeader.packetType header)
                          buf packetLength of
                     Inl e \<Rightarrow> (Some e, c1)
                   | Inr _ \<Rightarrow>
                      (None,
                       c1 \<lparr> useCount := useCount c1 + 1,
                            entries := (entries c1)
                              [oldestEntry := filled \<lparr> logicalOffset := packetLogicalOffset,
                                                       lastUsed := useCount c1 + 1 \<rparr>] \<rparr>)))))"

text \<open>\<^verbatim>\<open>PacketReadCache::readPacket\<close>, lines 165-233.\<close>

definition readPacket ::
    "bool \<Rightarrow> PacketReadCache \<Rightarrow> nat \<Rightarrow> 64 word \<Rightarrow> ErrorCode option \<times> PacketReadCache" where
  "readPacket E57_MAX_DEBUG c oldestEntry packetLogicalOffset =
     (case CheckedFile_read (CheckedFile_seek (cFile c) (unat packetLogicalOffset))
             sizeof_EmptyPacketHeader of
        (Inl e, f) \<Rightarrow> (Some e, c \<lparr> cFile := f \<rparr>)
      | (Inr bytes, f) \<Rightarrow>
         (case EmptyPacketHeader_at bytes of
            Inl e \<Rightarrow> (Some e, c \<lparr> cFile := f \<rparr>)
          | Inr header \<Rightarrow>
             let packetLength = readPacket_packetLength header in
             if packetLength > E57_DATA_PACKET_MAX
               then (Some E57_ERROR_BAD_CV_PACKET, c \<lparr> cFile := f \<rparr>)
             else readPacket_full E57_MAX_DEBUG (c \<lparr> cFile := f \<rparr>) oldestEntry
                    packetLogicalOffset header packetLength))"

text \<open>The linear scan for a matching offset, lines 97-119: the first slot that matches.\<close>

fun find_match :: "CacheEntry list \<Rightarrow> 64 word \<Rightarrow> nat \<Rightarrow> nat option" where
  "find_match [] packetLogicalOffset i = None"
| "find_match (e # es) packetLogicalOffset i =
     (if packetLogicalOffset = logicalOffset e then Some i
      else find_match es packetLogicalOffset (Suc i))"

text \<open>
  The scan for the least recently used slot, lines 126-133: \<open>i\<close> is the index of the
  head of the list, \<open>oldestEntry\<close> and \<open>oldestUsed\<close> are the loop's variables.
\<close>

fun find_oldest :: "CacheEntry list \<Rightarrow> nat \<Rightarrow> nat \<Rightarrow> 32 word \<Rightarrow> nat" where
  "find_oldest [] i oldestEntry oldestUsed = oldestEntry"
| "find_oldest (e # es) i oldestEntry oldestUsed =
     (if lastUsed e < oldestUsed then find_oldest es (Suc i) i (lastUsed e)
      else find_oldest es (Suc i) oldestEntry oldestUsed)"

text \<open>
  \<^verbatim>\<open>PacketReadCache::lock\<close>, lines 82-150.  The result is the lock and the bytes that
  the published pointer \<^verbatim>\<open>pkt\<close> refers to.
\<close>

definition lock ::
    "bool \<Rightarrow> PacketReadCache \<Rightarrow> 64 word
       \<Rightarrow> (ErrorCode + PacketLock \<times> byte list) \<times> PacketReadCache" where
  "lock E57_MAX_DEBUG c packetLogicalOffset =
     (if lockCount c > 0 then (Inl E57_ERROR_INTERNAL, c)
      else if packetLogicalOffset = 0 then (Inl E57_ERROR_INTERNAL, c)
      else
        (case find_match (entries c) packetLogicalOffset 0 of
           Some i \<Rightarrow>
             let c1 = c \<lparr> useCount := useCount c + 1,
                          entries := (entries c)
                            [i := (entries c ! i) \<lparr> lastUsed := useCount c + 1 \<rparr>] \<rparr>
             in (Inr (\<lparr> cacheIndex = i \<rparr>, buffer (entries c1 ! i)),
                 c1 \<lparr> lockCount := lockCount c1 + 1 \<rparr>)
         | None \<Rightarrow>
             (case entries c of
                [] \<Rightarrow> (Inl STD_OUT_OF_RANGE, c)
              | e0 # _ \<Rightarrow>
                 let oldestEntry = find_oldest (entries c) 0 0 (lastUsed e0) in
                 (case readPacket E57_MAX_DEBUG c oldestEntry packetLogicalOffset of
                    (Some e, c1) \<Rightarrow> (Inl e, c1)
                  | (None, c1) \<Rightarrow>
                     (Inr (\<lparr> cacheIndex = oldestEntry \<rparr>, buffer (entries c1 ! oldestEntry)),
                      c1 \<lparr> lockCount := lockCount c1 + 1 \<rparr>)))))"

section \<open>Notions used to state the properties\<close>

text \<open>
  The \<open>i\<close>-th entry of the length-prefix table of a data packet, the declared logical
  length \<open>packetLogicalLengthMinus1 + 1\<close>, and the length a data packet needs: header size
  plus table size plus the sum of the table's entries.
\<close>

definition tableEntry :: "byte list \<Rightarrow> nat \<Rightarrow> nat" where
  "tableEntry buf i = unat (le16 (buf ! (6 + 2 * i)) (buf ! (7 + 2 * i)))"

definition declaredLength :: "DataPacketHeader \<Rightarrow> nat" where
  "declaredLength hp = unat (packetLogicalLengthMinus1 hp) + 1"

definition neededLength :: "byte list \<Rightarrow> DataPacketHeader \<Rightarrow> nat" where
  "neededLength buf hp =
     sizeof_DataPacketHeader + 2 * unat (bytestreamCount hp)
       + (\<Sum>i<unat (bytestreamCount hp). tableEntry buf i)"

text \<open>
  The data packet of the scenario: \<open>bytestreamCount = 2\<close>, a length table of 10 and
  \<open>second\<close>, thirty bytes of stream data and zeros up to the end of the 65536-byte
  struct; \<open>lengthMinus1\<close> is the low byte of the length field.
\<close>

definition scenario_data_packet :: "byte \<Rightarrow> byte \<Rightarrow> byte list" where
  "scenario_data_packet lengthMinus1 second =
     [1, 0, lengthMinus1, 0, 2, 0, 10, 0, second, 0] @ replicate 30 1 @ replicate 65496 0"

text \<open>
  The index packet of the scenario, as a whole \<^verbatim>\<open>IndexPacket\<close> struct: \<open>entryCount = 3\<close>,
  \<open>indexLevel = 0\<close>, declared length 64, entries \<open>(0,1024)\<close>, \<open>(5,2048)\<close>, \<open>(9,4096)\<close>;
  \<open>flipped\<close> swaps the second and the third entry.
\<close>

definition scenario_index_packet :: "bool \<Rightarrow> byte list" where
  "scenario_index_packet flipped =
     [0, 0, 63, 0, 3, 0, 0] @ replicate 9 0
     @ [0, 0, 0, 0, 0, 0, 0, 0,  0, 4, 0, 0, 0, 0, 0, 0]
     @ (if flipped
        then [9, 0, 0, 0, 0, 0, 0, 0,  0, 16, 0, 0, 0, 0, 0, 0,
              5, 0, 0, 0, 0, 0, 0, 0,  0, 8, 0, 0, 0, 0, 0, 0]
        else [5, 0, 0, 0, 0, 0, 0, 0,  0, 8, 0, 0, 0, 0, 0, 0,
              9, 0, 0, 0, 0, 0, 0, 0,  0, 16, 0, 0, 0, 0, 0, 0])
     @ replicate 32720 0"

text \<open>
  A file of twenty-four bytes for the cache scenarios: at offsets 4, 16 and 20 an empty
  packet of length 4, at offset 8 an empty packet that declares length 6.  \<open>scenario_cache\<close> is
  a cache of one slot over this file whose slot is recorded as holding offset 4.
\<close>

definition scenario_file :: CheckedFile where
  "scenario_file =
     \<lparr> contents = [0, 0, 0, 0,  2, 0, 3, 0,  2, 0, 5, 0, 0, 0, 0, 0,  2, 0, 3, 0,  2, 0, 3, 0],
       position = 0 \<rparr>"

definition scenario_cache :: "byte list \<Rightarrow> 32 word \<Rightarrow> PacketReadCache" where
  "scenario_cache packet used =
     \<lparr> lockCount = 0, useCount = used, cFile = scenario_file \<lparr> position := 8 \<rparr>,
       entries = [\<lparr> logicalOffset = 4, buffer = packet @ replicate (65536 - length packet) 0,
                    lastUsed = 1 \<rparr>] \<rparr>"

text \<open>
  The scenario file followed by the first 64 bytes of the scenario index packet, which
  thus lies at offset 24, and a cache of one slot over that file as a \<open>lock\<close> of
  offset 4 leaves it, with the given lock count.
\<close>

definition scenario_index_file :: CheckedFile where
  "scenario_index_file =
     \<lparr> contents = contents scenario_file @ take 64 (scenario_index_packet False), position = 0 \<rparr>"

definition scenario_index_cache :: "32 word \<Rightarrow> PacketReadCache" where
  "scenario_index_cache locks =
     \<lparr> lockCount = locks, useCount = 1, cFile = scenario_index_file \<lparr> position := 8 \<rparr>,
       entries = [\<lparr> logicalOffset = 4, buffer = [2, 0, 3, 0] @ replicate 65532 0,
                    lastUsed = 1 \<rparr>] \<rparr>"

text \<open>
  The bytes a read of \<open>n\<close> bytes at position \<open>p\<close> delivers from a file with contents
  \<open>cs\<close>, if it delivers any.
\<close>

definition file_bytes :: "byte list \<Rightarrow> nat \<Rightarrow> nat \<Rightarrow> byte list option" where
  "file_bytes cs p n = (if p + n \<le> length cs then Some (take n (drop p cs)) else None)"

text \<open>
  A valid offset: the file holds there a packet whose header and whose declared length
  can be read, and whose bytes pass the verification that \<open>readPacket\<close> applies to its
  packet type.
\<close>

definition valid_packet :: "bool \<Rightarrow> byte list \<Rightarrow> 64 word \<Rightarrow> bool" where
  "valid_packet E57_MAX_DEBUG cs packetLogicalOffset =
     (case file_bytes cs (unat packetLogicalOffset) sizeof_EmptyPacketHeader of
        None \<Rightarrow> False
      | Some hb \<Rightarrow>
         (case EmptyPacketHeader_at hb of
            Inl e \<Rightarrow> False
          | Inr header \<Rightarrow>
             (case file_bytes cs (unat packetLogicalOffset) (readPacket_packetLength header) of
                None \<Rightarrow> False
              | Some bytes \<Rightarrow>
                 verify_by_type E57_MAX_DEBUG (EmptyPacketHeader.packetType header) bytes
                   (readPacket_packetLength header) = Inr ())))"

text \<open>
  What the constructor establishes and every member function keeps: there is at least
  one slot and every slot owns a buffer of \<open>E57_DATA_PACKET_MAX\<close> bytes.
\<close>

definition cache_ok :: "PacketReadCache \<Rightarrow> bool" where
  "cache_ok c \<longleftrightarrow>
     entries c \<noteq> [] \<and> list_all (\<lambda>e. length (buffer e) = E57_DATA_PACKET_MAX) (entries c)"

text \<open>
  Slot \<open>j\<close> is the least recently used one: its \<open>lastUsed\<close> stamp is minimal over all
  slots, and every slot before it has a strictly greater stamp (ties go to the lowest
  index).
\<close>

definition is_lru :: "CacheEntry list \<Rightarrow> nat \<Rightarrow> bool" where
  "is_lru es j \<longleftrightarrow>
     j < length es
     \<and> list_all (\<lambda>e. lastUsed (es ! j) \<le> lastUsed e) es
     \<and> list_all (\<lambda>e. lastUsed (es ! j) < lastUsed e) (take j es)"

text \<open>
  Locking and releasing a list of offsets one after the other.  The result lists the
  slot of each lock; it is \<open>None\<close> when a lock fails.
\<close>

fun lock_release_all ::
    "bool \<Rightarrow> PacketReadCache \<Rightarrow> 64 word list \<Rightarrow> (nat list \<times> PacketReadCache) option" where
  "lock_release_all dbg c [] = Some ([], c)"
| "lock_release_all dbg c (off # offs) =
     (case lock dbg c off of
        (Inl e, c1) \<Rightarrow> None
      | (Inr (plock, pkt), c1) \<Rightarrow>
          (case lock_release_all dbg (snd (PacketLock_dtor plock c1)) offs of
             None \<Rightarrow> None
           | Some (slots, c2) \<Rightarrow> Some (cacheIndex plock # slots, c2)))"

text \<open>
  The state of a cache of \<open>N\<close> slots over a file with contents \<open>cs\<close> after the
  distinct offsets \<open>offs\<close> were locked and released in order, starting from the
  constructor: slot \<open>i\<close> holds the \<open>i\<close>-th offset with stamp \<open>i + 1\<close>, the other slots
  are unused.
\<close>

definition filled :: "byte list \<Rightarrow> nat \<Rightarrow> 64 word list \<Rightarrow> PacketReadCache \<Rightarrow> bool" where
  "filled cs N offs c \<longleftrightarrow>
     lockCount c = 0 \<and> useCount c = of_nat (length offs) \<and> contents (cFile c) = cs
     \<and> length (entries c) = N
     \<and> (\<forall>i<N. length (buffer (entries c ! i)) = E57_DATA_PACKET_MAX
              \<and> (if i < length offs
                  then logicalOffset (entries c ! i) = offs ! i
                       \<and> lastUsed (entries c ! i) = of_nat (i + 1)
                  else logicalOffset (entries c ! i) = 0 \<and> lastUsed (entries c ! i) = 0))"

section \<open>Arithmetic of the fixed-width fields\<close>

lemma u32_id: "n < 4294967296 \<Longrightarrow> u32 n = n"
  by (simp add: u32_def)

lemma usize_id: "n < 18446744073709551616 \<Longrightarrow> usize n = n"
  by (simp add: usize_def)

lemma unat_byte_less: "unat (b :: byte) < 256"
  using unsigned_less [of b, where ?'a = nat] by simp

lemma unat_u16_less: "unat (w :: 16 word) < 65536"
  using unsigned_less [of w, where ?'a = nat] by simp

lemma unat_le16: "unat (le16 a b) = unat a + 256 * unat b"
proof -
  have "unat a + 256 * unat b < 65536"
    using unat_byte_less [of a] unat_byte_less [of b] by arith
  moreover have "unat (of_nat (unat a + 256 * unat b) :: 16 word) = (unat a + 256 * unat b) mod 2 ^ 16"
    by (simp only: unat_of_nat len_of_numeral_defs) simp
  ultimately show ?thesis unfolding le16_def by simp
qed

lemma tableEntry_less: "tableEntry buf i < 65536"
  by (simp add: tableEntry_def unat_u16_less)

lemma bsbLength_Inr: "bsbLength buf i = Inr l \<Longrightarrow> unat l = tableEntry buf i \<and> 8 + 2 * i \<le> length buf"
  by (auto simp: bsbLength_def read_u16_def tableEntry_def sizeof_DataPacketHeader_def split: if_splits)

lemma bsbLength_inside: "8 + 2 * i \<le> length buf \<Longrightarrow> \<exists>l. bsbLength buf i = Inr l \<and> unat l = tableEntry buf i"
  by (auto simp: bsbLength_def read_u16_def tableEntry_def sizeof_DataPacketHeader_def split: if_splits)

lemma sum_bsbLength_append:
  "sum_bsbLength buf (xs @ ys) acc =
     (case sum_bsbLength buf xs acc of Inl e \<Rightarrow> Inl e | Inr t \<Rightarrow> sum_bsbLength buf ys t)"
  by (induction xs arbitrary: acc) (auto split: sum.splits)

lemma sum_tableEntry_le: "(\<Sum>i<n. tableEntry buf i) \<le> 65535 * n"
proof -
  have "(\<Sum>i<n. tableEntry buf i) \<le> (\<Sum>i<n. 65535)"
    by (rule sum_mono) (use tableEntry_less [of buf] in \<open>simp add: less_Suc_eq_le [symmetric]\<close>)
  then show ?thesis by simp
qed

lemma sum_bsbLength_Inr:
  "sum_bsbLength buf [0 ..< n] 0 = Inr t \<Longrightarrow> n \<le> 65535 \<Longrightarrow>
     t = (\<Sum>i<n. tableEntry buf i) \<and> (n = 0 \<or> 6 + 2 * n \<le> length buf)"
proof (induction n arbitrary: t)
  case 0
  then show ?case by simp
next
  case (Suc n)
  from Suc.prems(1) obtain t' l where t': "sum_bsbLength buf [0 ..< n] 0 = Inr t'"
    and l: "bsbLength buf n = Inr l" and t: "t = u32 (t' + unat l)"
    by (auto simp: sum_bsbLength_append split: sum.splits)
  from Suc.IH [OF t'] Suc.prems(2) have t'_eq: "t' = (\<Sum>i<n. tableEntry buf i)" by simp
  from bsbLength_Inr [OF l] have le: "unat l = tableEntry buf n" "8 + 2 * n \<le> length buf" by simp_all
  have "(\<Sum>i<Suc n. tableEntry buf i) \<le> 65535 * Suc n" by (rule sum_tableEntry_le)
  with Suc.prems(2) have "(\<Sum>i<Suc n. tableEntry buf i) < 4294967296" by simp
  with t t'_eq le show ?case by (simp add: u32_id)
qed

lemma sum_bsbLength_inside:
  "6 + 2 * n \<le> length buf \<Longrightarrow> n \<le> 65535 \<Longrightarrow>
     sum_bsbLength buf [0 ..< n] 0 = Inr (\<Sum>i<n. tableEntry buf i)"
proof (induction n)
  case 0
  then show ?case by simp
next
  case (Suc n)
  then have IH: "sum_bsbLength buf [0 ..< n] 0 = Inr (\<Sum>i<n. tableEntry buf i)" by simp
  from Suc.prems obtain l where l: "bsbLength buf n = Inr l" "unat l = tableEntry buf n"
    using bsbLength_inside [of n buf] by auto
  have "(\<Sum>i<Suc n. tableEntry buf i) \<le> 65535 * Suc n" by (rule sum_tableEntry_le)
  with Suc.prems(2) have "(\<Sum>i<Suc n. tableEntry buf i) < 4294967296" by simp
  with IH l show ?case by (simp add: sum_bsbLength_append u32_id)
qed

lemma verify_padding_Inr:
  "verify_padding buf is = Inr () \<Longrightarrow> i \<in> set is \<Longrightarrow> read_u8 buf i = Inr 0"
  by (induction "is") (auto split: sum.splits if_splits)

section \<open>Properties of data packets\<close>

lemma declaredLength_le: "declaredLength hp \<le> 65536"
  using unat_u16_less [of "packetLogicalLengthMinus1 hp"] by (simp add: declaredLength_def)

lemma u32_declaredLength: "u32 (unat (packetLogicalLengthMinus1 hp) + 1) = declaredLength hp"
  using declaredLength_le [of hp] by (simp add: declaredLength_def u32_id)

lemma u32_declaredLength_Suc: "u32 (Suc (unat (packetLogicalLengthMinus1 hp))) = declaredLength hp"
  using u32_declaredLength [of hp] by simp

lemma usize_table_end: "usize (sizeof_DataPacketHeader + 2 * unat (c :: 16 word)) = 6 + 2 * unat c"
  using unat_u16_less [of c] by (simp add: usize_id sizeof_DataPacketHeader_def)

lemma DataPacketHeader_verify_iff:
  "DataPacketHeader_verify hp bufferLength = Inr () \<longleftrightarrow>
     packetType hp = E57_DATA_PACKET \<and> 6 \<le> declaredLength hp \<and> declaredLength hp mod 4 = 0
     \<and> (bufferLength = 0 \<or> declaredLength hp \<le> bufferLength)
     \<and> bytestreamCount hp \<noteq> 0 \<and> 6 + 2 * unat (bytestreamCount hp) \<le> declaredLength hp"
  unfolding DataPacketHeader_verify_def Let_def u32_declaredLength usize_table_end
  by (auto simp: sizeof_DataPacketHeader_def)

lemma DataPacketHeader_verify_error:
  "DataPacketHeader_verify hp bufferLength = Inl e \<Longrightarrow> e = E57_ERROR_BAD_CV_PACKET"
  unfolding DataPacketHeader_verify_def Let_def by (auto split: if_splits)

lemma neededLength_bound:
  assumes "6 + 2 * unat (bytestreamCount hp) \<le> 65536"
  shows "neededLength buf hp < 4294967296 - 3"
proof -
  let ?c = "unat (bytestreamCount hp)"
  have c: "?c \<le> 32765" using assms by simp
  have "(\<Sum>i<?c. tableEntry buf i) \<le> 65535 * ?c" by (rule sum_tableEntry_le)
  also have "\<dots> \<le> 65535 * 32765" using c by simp
  finally show ?thesis using c by (simp add: neededLength_def sizeof_DataPacketHeader_def)
qed

lemma DataPacket_verify_Inr:
  assumes "DataPacket_verify buf bufferLength = Inr ()"
  shows "\<exists>hp. DataPacketHeader_at buf = Inr hp
           \<and> DataPacketHeader_verify hp bufferLength = Inr ()
           \<and> neededLength buf hp \<le> declaredLength hp
           \<and> declaredLength hp \<le> neededLength buf hp + 3
           \<and> (unat (bytestreamCount hp) = 0 \<or> 6 + 2 * unat (bytestreamCount hp) \<le> length buf)
           \<and> verify_padding buf [neededLength buf hp ..< declaredLength hp] = Inr ()"
proof -
  from assms obtain hp where hp: "DataPacketHeader_at buf = Inr hp"
    by (auto simp: DataPacket_verify_def split: sum.splits)
  from assms hp have hv: "DataPacketHeader_verify hp bufferLength = Inr ()"
    by (auto simp: DataPacket_verify_def split: sum.splits)
  from assms hp hv obtain t where t: "sum_bsbLength buf [0 ..< unat (bytestreamCount hp)] 0 = Inr t"
    by (auto simp: DataPacket_verify_def split: sum.splits)
  have c: "unat (bytestreamCount hp) \<le> 65535" using unat_u16_less [of "bytestreamCount hp"] by simp
  from sum_bsbLength_Inr [OF t c]
  have t_eq: "t = (\<Sum>i<unat (bytestreamCount hp). tableEntry buf i)"
    and inside: "unat (bytestreamCount hp) = 0 \<or> 6 + 2 * unat (bytestreamCount hp) \<le> length buf"
    by simp_all
  have "6 + 2 * unat (bytestreamCount hp) \<le> 65536"
    using hv declaredLength_le [of hp] by (simp add: DataPacketHeader_verify_iff)
  then have nb: "neededLength buf hp < 4294967296 - 3" by (rule neededLength_bound)
  have needed: "u32 (usize (sizeof_DataPacketHeader + 2 * unat (bytestreamCount hp) + t)) = neededLength buf hp"
    using nb by (simp add: t_eq neededLength_def usize_id u32_id)
  have needed3: "u32 (neededLength buf hp + 3) = neededLength buf hp + 3"
    using nb by (simp add: u32_id)
  from assms hp hv t
  have "\<not> (neededLength buf hp > declaredLength hp \<or> neededLength buf hp + 3 < declaredLength hp)
        \<and> verify_padding buf [neededLength buf hp ..< declaredLength hp] = Inr ()"
    by (simp add: DataPacket_verify_def Let_def needed u32_declaredLength_Suc needed3 split: if_splits)
  with hp hv inside show ?thesis by auto
qed

lemma DataPacket_verify_eq:
  assumes hp: "DataPacketHeader_at buf = Inr hp"
    and hv: "DataPacketHeader_verify hp bufferLength = Inr ()"
    and inside: "6 + 2 * unat (bytestreamCount hp) \<le> length buf"
  shows "DataPacket_verify buf bufferLength =
           (if neededLength buf hp > declaredLength hp \<or> neededLength buf hp + 3 < declaredLength hp
            then Inl E57_ERROR_BAD_CV_PACKET
            else verify_padding buf [neededLength buf hp ..< declaredLength hp])"
proof -
  have c: "unat (bytestreamCount hp) \<le> 65535" using unat_u16_less [of "bytestreamCount hp"] by simp
  from sum_bsbLength_inside [OF inside c]
  have t: "sum_bsbLength buf [0 ..< unat (bytestreamCount hp)] 0
             = Inr (\<Sum>i<unat (bytestreamCount hp). tableEntry buf i)" .
  have "6 + 2 * unat (bytestreamCount hp) \<le> 65536"
    using hv declaredLength_le [of hp] by (simp add: DataPacketHeader_verify_iff)
  then have nb: "neededLength buf hp < 4294967296 - 3" by (rule neededLength_bound)
  have needed: "u32 (usize (sizeof_DataPacketHeader + 2 * unat (bytestreamCount hp)
                  + (\<Sum>i<unat (bytestreamCount hp). tableEntry buf i))) = neededLength buf hp"
    using nb by (simp add: neededLength_def usize_id u32_id)
  have needed3: "u32 (neededLength buf hp + 3) = neededLength buf hp + 3"
    using nb by (simp add: u32_id)
  show ?thesis
    using hp hv t
    by (simp add: DataPacket_verify_def Let_def needed u32_declaredLength_Suc needed3)
qed

lemma sum_tableEntry_prefix:
  "n < c \<Longrightarrow> (\<Sum>i<n. tableEntry buf i) + tableEntry buf n \<le> (\<Sum>i<c. tableEntry buf i)"
proof -
  assume "n < c"
  then have "{..<Suc n} \<subseteq> {..<c}" by auto
  then have "(\<Sum>i<Suc n. tableEntry buf i) \<le> (\<Sum>i<c. tableEntry buf i)"
    by (intro sum_mono2) auto
  then show ?thesis by simp
qed

lemma getBytestream_inside:
  assumes hp: "DataPacketHeader_at buf = Inr hp"
    and ty: "packetType hp = E57_DATA_PACKET"
    and n: "n < unat (bytestreamCount hp)"
    and inside: "8 + 2 * n \<le> length buf"
  shows "DataPacket_getBytestream buf n =
           (if sizeof_DataPacketHeader + 2 * unat (bytestreamCount hp)
                 + (\<Sum>i<n. tableEntry buf i) + tableEntry buf n > declaredLength hp
            then Inl E57_ERROR_INTERNAL
            else Inr (sizeof_DataPacketHeader + 2 * unat (bytestreamCount hp)
                        + (\<Sum>i<n. tableEntry buf i), tableEntry buf n))"
proof -
  have c: "unat (bytestreamCount hp) \<le> 65535" using unat_u16_less [of "bytestreamCount hp"] by simp
  with n have n': "n \<le> 65535" by simp
  from inside have "6 + 2 * n \<le> length buf" by simp
  from sum_bsbLength_inside [OF this n']
  have s: "sum_bsbLength buf [0 ..< n] 0 = Inr (\<Sum>i<n. tableEntry buf i)" .
  from bsbLength_inside [OF inside] obtain l
    where l: "bsbLength buf n = Inr l" "unat l = tableEntry buf n" by blast
  have "(\<Sum>i<n. tableEntry buf i) \<le> 65535 * n" by (rule sum_tableEntry_le)
  also have "\<dots> \<le> 65535 * 65534" using n c by simp
  finally have "sizeof_DataPacketHeader + 2 * unat (bytestreamCount hp)
                  + (\<Sum>i<n. tableEntry buf i) + tableEntry buf n < 18446744073709551616"
    using c tableEntry_less [of buf n] by (simp add: sizeof_DataPacketHeader_def)
  then have u: "usize (sizeof_DataPacketHeader + 2 * unat (bytestreamCount hp)
                  + (\<Sum>i<n. tableEntry buf i) + tableEntry buf n)
             = sizeof_DataPacketHeader + 2 * unat (bytestreamCount hp)
                  + (\<Sum>i<n. tableEntry buf i) + tableEntry buf n"
    by (rule usize_id)
  show ?thesis
    using hp ty n s l u
    by (simp add: DataPacket_getBytestream_def Let_def u32_declaredLength_Suc u32_declaredLength)
qed

lemmas data_eval =
  scenario_data_packet_def DataPacket_verify_def DataPacketHeader_at_def
  DataPacketHeader_verify_def DataPacket_getBytestream_def sizeof_DataPacketHeader_def
  le16_def u32_def usize_def E57_DATA_PACKET_def bsbLength_def read_u16_def read_u8_def
  tableEntry_def declaredLength_def neededLength_def nth_append upt_conv_Cons

text \<open>
  Claim C5.  Whenever \<open>DataPacket_verify\<close> succeeds on a buffer, the needed length
  (header size plus twice the bytestream count plus the sum of the length table) is at
  most the declared logical length and at least that length minus 3, and every byte from
  the needed length up to the declared length is zero.
\<close>

theorem DataPacket_verify_round_trip:
  assumes "DataPacket_verify buf bufferLength = Inr ()"
  shows "\<exists>hp. DataPacketHeader_at buf = Inr hp
           \<and> neededLength buf hp \<le> declaredLength hp
           \<and> declaredLength hp \<le> neededLength buf hp + 3
           \<and> (\<forall>i. neededLength buf hp \<le> i \<and> i < declaredLength hp \<longrightarrow> read_u8 buf i = Inr 0)"
proof -
  from DataPacket_verify_Inr [OF assms] obtain hp where hp: "DataPacketHeader_at buf = Inr hp"
    and le: "neededLength buf hp \<le> declaredLength hp" "declaredLength hp \<le> neededLength buf hp + 3"
    and pad: "verify_padding buf [neededLength buf hp ..< declaredLength hp] = Inr ()"
    by blast
  have "read_u8 buf i = Inr 0" if "neededLength buf hp \<le> i" "i < declaredLength hp" for i
    using verify_padding_Inr [OF pad, of i] that by simp
  with hp le show ?thesis by auto
qed

theorem DataPacket_verify_round_trip_witness:
  "DataPacket_verify (scenario_data_packet 43 21) 44 = Inr ()
   \<and> (\<exists>hp. DataPacketHeader_at (scenario_data_packet 43 21) = Inr hp
        \<and> neededLength (scenario_data_packet 43 21) hp = 41
        \<and> declaredLength hp = 44
        \<and> read_u8 (scenario_data_packet 43 21) 41 = Inr 0
        \<and> read_u8 (scenario_data_packet 43 21) 42 = Inr 0
        \<and> read_u8 (scenario_data_packet 43 21) 43 = Inr 0)"
proof -
  have v: "DataPacket_verify (scenario_data_packet 43 21) 44 = Inr ()"
    by (simp add: data_eval)
  have two: "{..<2::nat} = {0, 1}" by auto
  from DataPacket_verify_round_trip [OF v] obtain hp where
    hp: "DataPacketHeader_at (scenario_data_packet 43 21) = Inr hp"
    and z: "\<forall>i. neededLength (scenario_data_packet 43 21) hp \<le> i \<and> i < declaredLength hp
              \<longrightarrow> read_u8 (scenario_data_packet 43 21) i = Inr 0"
    by blast
  from hp have hp_eq: "hp = \<lparr> packetType = 1, packetFlags = 0, packetLogicalLengthMinus1 = 43, bytestreamCount = 2 \<rparr>"
    by (simp add: scenario_data_packet_def DataPacketHeader_at_def sizeof_DataPacketHeader_def le16_def)
  have n: "neededLength (scenario_data_packet 43 21) hp = 41"
    by (simp add: hp_eq neededLength_def two tableEntry_def scenario_data_packet_def
        sizeof_DataPacketHeader_def le16_def)
  have d: "declaredLength hp = 44" by (simp add: hp_eq declaredLength_def)
  from z n d have "read_u8 (scenario_data_packet 43 21) 41 = Inr 0"
    "read_u8 (scenario_data_packet 43 21) 42 = Inr 0"
    "read_u8 (scenario_data_packet 43 21) 43 = Inr 0" by simp_all
  with v hp n d show ?thesis by blast
qed

text \<open>
  Claim C4.  For a data packet and a stream number \<open>n\<close> below the bytestream count whose
  table entries lie inside the buffer: if header size plus table size plus the lengths of
  the streams before \<open>n\<close> plus the length of stream \<open>n\<close> exceeds the declared logical
  length, \<open>DataPacket_getBytestream\<close> fails with \<open>E57_ERROR_INTERNAL\<close>, the code of an
  internal inconsistency, which is not the code \<open>E57_ERROR_BAD_CV_PACKET\<close> of a
  malformed packet on disk.
\<close>

theorem getBytestream_out_of_bounds:
  assumes "DataPacketHeader_at buf = Inr hp"
    and "packetType hp = E57_DATA_PACKET"
    and "n < unat (bytestreamCount hp)"
    and "8 + 2 * n \<le> length buf"
    and "sizeof_DataPacketHeader + 2 * unat (bytestreamCount hp)
           + (\<Sum>i<n. tableEntry buf i) + tableEntry buf n > declaredLength hp"
  shows "DataPacket_getBytestream buf n = Inl E57_ERROR_INTERNAL
         \<and> E57_ERROR_INTERNAL \<noteq> E57_ERROR_BAD_CV_PACKET"
  using getBytestream_inside [OF assms(1-4)] assms(5) by simp

theorem getBytestream_out_of_bounds_witness:
  "DataPacketHeader_at (scenario_data_packet 11 20)
     = Inr \<lparr> packetType = 1, packetFlags = 0, packetLogicalLengthMinus1 = 11, bytestreamCount = 2 \<rparr>
   \<and> DataPacket_getBytestream (scenario_data_packet 11 20) 1 = Inl E57_ERROR_INTERNAL"
  using getBytestream_out_of_bounds [of "scenario_data_packet 11 20"
      "\<lparr> packetType = 1, packetFlags = 0, packetLogicalLengthMinus1 = 11, bytestreamCount = 2 \<rparr>" 1]
  by (simp add: scenario_data_packet_def DataPacketHeader_at_def sizeof_DataPacketHeader_def
      le16_def E57_DATA_PACKET_def tableEntry_def declaredLength_def)

text \<open>
  Claim C8.  For a data packet that \<open>DataPacket_verify\<close> accepts:
  \<open>DataPacket_getBytestream\<close> fails with \<open>E57_ERROR_INTERNAL\<close> for every stream number
  that is not below the bytestream count, and for every stream number \<open>n\<close> below it
  returns the length given by the \<open>n\<close>-th table entry and the offset header size plus
  table size plus the sum of the preceding lengths, with offset plus length at most the
  declared logical length.
\<close>

theorem getBytestream_validated:
  assumes v: "DataPacket_verify buf bufferLength = Inr ()"
    and hp: "DataPacketHeader_at buf = Inr hp"
  shows "(n \<ge> unat (bytestreamCount hp) \<longrightarrow>
            DataPacket_getBytestream buf n = Inl E57_ERROR_INTERNAL)
       \<and> (n < unat (bytestreamCount hp) \<longrightarrow>
            DataPacket_getBytestream buf n =
              Inr (sizeof_DataPacketHeader + 2 * unat (bytestreamCount hp)
                     + (\<Sum>i<n. tableEntry buf i), tableEntry buf n)
            \<and> sizeof_DataPacketHeader + 2 * unat (bytestreamCount hp)
                     + (\<Sum>i<n. tableEntry buf i) + tableEntry buf n \<le> declaredLength hp)"
proof -
  from DataPacket_verify_Inr [OF v] hp
  have hv: "DataPacketHeader_verify hp bufferLength = Inr ()"
    and le: "neededLength buf hp \<le> declaredLength hp"
    and inside: "unat (bytestreamCount hp) = 0 \<or> 6 + 2 * unat (bytestreamCount hp) \<le> length buf"
    by auto
  from hv have ty: "packetType hp = E57_DATA_PACKET" by (simp add: DataPacketHeader_verify_iff)
  have ge: "DataPacket_getBytestream buf n = Inl E57_ERROR_INTERNAL"
    if "n \<ge> unat (bytestreamCount hp)"
    using that hp ty by (simp add: DataPacket_getBytestream_def)
  have lt: "DataPacket_getBytestream buf n =
              Inr (sizeof_DataPacketHeader + 2 * unat (bytestreamCount hp)
                     + (\<Sum>i<n. tableEntry buf i), tableEntry buf n)
            \<and> sizeof_DataPacketHeader + 2 * unat (bytestreamCount hp)
                     + (\<Sum>i<n. tableEntry buf i) + tableEntry buf n \<le> declaredLength hp"
    if n: "n < unat (bytestreamCount hp)"
  proof -
    from n inside have ins: "8 + 2 * n \<le> length buf" by auto
    from sum_tableEntry_prefix [OF n, of buf] le
    have bound: "sizeof_DataPacketHeader + 2 * unat (bytestreamCount hp)
                     + (\<Sum>i<n. tableEntry buf i) + tableEntry buf n \<le> declaredLength hp"
      by (simp add: neededLength_def)
    with getBytestream_inside [OF hp ty n ins] show ?thesis by simp
  qed
  from ge lt show ?thesis by blast
qed

theorem getBytestream_validated_witness:
  "DataPacket_verify (scenario_data_packet 43 21) 44 = Inr ()
   \<and> DataPacket_getBytestream (scenario_data_packet 43 21) 2 = Inl E57_ERROR_INTERNAL
   \<and> DataPacket_getBytestream (scenario_data_packet 43 21) 1 = Inr (20, 21)"
proof -
  have v: "DataPacket_verify (scenario_data_packet 43 21) 44 = Inr ()"
    by (simp add: data_eval)
  have hp: "DataPacketHeader_at (scenario_data_packet 43 21)
     = Inr \<lparr> packetType = 1, packetFlags = 0, packetLogicalLengthMinus1 = 43, bytestreamCount = 2 \<rparr>"
    by (simp add: scenario_data_packet_def DataPacketHeader_at_def sizeof_DataPacketHeader_def le16_def)
  from getBytestream_validated [OF v hp, of 2] getBytestream_validated [OF v hp, of 1] v
  show ?thesis
    by (simp add: tableEntry_def scenario_data_packet_def sizeof_DataPacketHeader_def le16_def)
qed

text \<open>
  Claim C3, as stated, fails: a declared logical length of 43 is not a multiple of 4, so
  \<open>DataPacketHeader_verify\<close> rejects the packet before the slack is looked at.
\<close>

theorem data_packet_scenario_counterexample:
  "DataPacket_verify (scenario_data_packet 42 20) 43 = Inl E57_ERROR_BAD_CV_PACKET
   \<and> DataPacket_verify (scenario_data_packet 42 20) 0 = Inl E57_ERROR_BAD_CV_PACKET"
  by (simp add: data_eval)

text \<open>
  Claim C3, amended.  A data packet with \<open>bytestreamCount = 2\<close> and length table
  \<open>{10, 20}\<close> needs 40 bytes; \<open>DataPacket_verify\<close> accepts it exactly when the
  declared logical length is 40 and the supplied buffer length is 0 or at least 40.
  Every other declared length, 43 and 44 among them, is rejected with
  \<open>E57_ERROR_BAD_CV_PACKET\<close>.
\<close>

theorem data_packet_scenario:
  assumes hp: "DataPacketHeader_at buf = Inr hp"
    and ty: "packetType hp = E57_DATA_PACKET"
    and bc: "bytestreamCount hp = 2"
    and inside: "10 \<le> length buf"
    and t0: "tableEntry buf 0 = 10"
    and t1: "tableEntry buf 1 = 20"
  shows "DataPacket_verify buf bufferLength =
           (if declaredLength hp = 40 \<and> (bufferLength = 0 \<or> 40 \<le> bufferLength)
            then Inr () else Inl E57_ERROR_BAD_CV_PACKET)"
proof -
  have c: "unat (bytestreamCount hp) = 2" using bc by simp
  have two: "{..<2::nat} = {0, 1}" by auto
  have n: "neededLength buf hp = 40"
    using t0 t1 by (simp add: neededLength_def c two sizeof_DataPacketHeader_def)
  show ?thesis
  proof (cases "DataPacketHeader_verify hp bufferLength")
    case (Inl e)
    then have e: "e = E57_ERROR_BAD_CV_PACKET" by (rule DataPacketHeader_verify_error)
    from Inl have "DataPacketHeader_verify hp bufferLength \<noteq> Inr ()" by simp
    with c ty bc have "\<not> (declaredLength hp = 40 \<and> (bufferLength = 0 \<or> 40 \<le> bufferLength))"
      unfolding DataPacketHeader_verify_iff by auto
    with Inl e hp show ?thesis by (simp add: DataPacket_verify_def)
  next
    case (Inr u)
    then have hv: "DataPacketHeader_verify hp bufferLength = Inr ()" by simp
    then have props: "declaredLength hp mod 4 = 0"
      "bufferLength = 0 \<or> declaredLength hp \<le> bufferLength"
      by (simp_all add: DataPacketHeader_verify_iff)
    from inside c have ins: "6 + 2 * unat (bytestreamCount hp) \<le> length buf" by simp
    note eq = DataPacket_verify_eq [OF hp hv ins, unfolded n]
    show ?thesis
    proof (cases "declaredLength hp = 40")
      case True
      with props eq show ?thesis by auto
    next
      case False
      with props(1) have "declaredLength hp < 40 \<or> 43 < declaredLength hp" by presburger
      with False eq show ?thesis by auto
    qed
  qed
qed

theorem data_packet_scenario_witness:
  "DataPacketHeader_at (scenario_data_packet 39 20)
     = Inr \<lparr> packetType = 1, packetFlags = 0, packetLogicalLengthMinus1 = 39, bytestreamCount = 2 \<rparr>
   \<and> DataPacket_verify (scenario_data_packet 39 20) 40 = Inr ()
   \<and> DataPacket_verify (scenario_data_packet 39 20) 0 = Inr ()"
  using data_packet_scenario [of "scenario_data_packet 39 20"
      "\<lparr> packetType = 1, packetFlags = 0, packetLogicalLengthMinus1 = 39, bytestreamCount = 2 \<rparr>" 40]
    data_packet_scenario [of "scenario_data_packet 39 20"
      "\<lparr> packetType = 1, packetFlags = 0, packetLogicalLengthMinus1 = 39, bytestreamCount = 2 \<rparr>" 0]
  by (simp add: scenario_data_packet_def DataPacketHeader_at_def sizeof_DataPacketHeader_def
      le16_def E57_DATA_PACKET_def tableEntry_def declaredLength_def)

section \<open>Properties of index packets\<close>

lemma scenario_index_packet_fields:
  "length (scenario_index_packet flipped) = sizeof_IndexPacket"
  "IndexPacket_at (scenario_index_packet flipped)
     = Inr \<lparr> IndexPacket.packetType = E57_INDEX_PACKET, packetFlags = 0,
              packetLogicalLengthMinus1 = 63, entryCount = 3, indexLevel = 0,
              reserved1 = replicate 9 0 \<rparr>"
  "IndexPacket_entries (scenario_index_packet False) 0
     = Inr \<lparr> chunkRecordNumber = 0, chunkPhysicalOffset = 1024 \<rparr>"
  "IndexPacket_entries (scenario_index_packet False) 1
     = Inr \<lparr> chunkRecordNumber = 5, chunkPhysicalOffset = 2048 \<rparr>"
  "IndexPacket_entries (scenario_index_packet False) 2
     = Inr \<lparr> chunkRecordNumber = 9, chunkPhysicalOffset = 4096 \<rparr>"
  "IndexPacket_entries (scenario_index_packet True) 1
     = Inr \<lparr> chunkRecordNumber = 9, chunkPhysicalOffset = 4096 \<rparr>"
  "IndexPacket_entries (scenario_index_packet True) 2
     = Inr \<lparr> chunkRecordNumber = 5, chunkPhysicalOffset = 2048 \<rparr>"
  by (simp_all add: scenario_index_packet_def IndexPacket_at_def IndexPacket_entries_def
      sizeof_IndexPacket_def MAX_ENTRIES_def le16_def E57_INDEX_PACKET_def)

text \<open>
  Claim C1 at its input.  \<open>IndexPacket_verify\<close> compares the declared length with
  \<^verbatim>\<open>sizeof(*this)\<close>, the size of the whole struct (32784), so the three-entry packet of
  declared length 64 is rejected with \<open>E57_ERROR_BAD_CV_PACKET\<close>, in either order of
  its entries, for every buffer length, record count and file size, with and without
  \<^verbatim>\<open>E57_MAX_DEBUG\<close>.
\<close>

theorem IndexPacket_verify_scenario:
  "IndexPacket_verify E57_MAX_DEBUG (scenario_index_packet False) bufferLength totalRecordCount fileSize
     = Inl E57_ERROR_BAD_CV_PACKET
   \<and> IndexPacket_verify E57_MAX_DEBUG (scenario_index_packet True) bufferLength totalRecordCount fileSize
     = Inl E57_ERROR_BAD_CV_PACKET"
  by (simp add: IndexPacket_verify_def scenario_index_packet_fields sizeof_IndexPacket_def
      MAX_ENTRIES_def u32_def)

section \<open>Properties of the cache\<close>

lemmas cache_eval =
  lock_def readPacket_def readPacket_full_def readPacket_packetLength_def
  CheckedFile_seek_def CheckedFile_read_def buffer_write_def verify_by_type_def
  EmptyPacketHeader_at_def EmptyPacketHeader_verify_def sizeof_EmptyPacketHeader_def
  PacketReadCache_ctor_def new_char_array_def PacketLock_dtor_def unlock_def
  E57_DATA_PACKET_MAX_def E57_DATA_PACKET_def E57_INDEX_PACKET_def E57_EMPTY_PACKET_def
  le16_def u32_def Let_def

lemma unlock_not_locked:
  "lockCount c \<noteq> 1 \<Longrightarrow> unlock c lockedEntry = (Some E57_ERROR_INTERNAL, c)"
  by (simp add: unlock_def)

text \<open>
  Claim C10.  The destructor of a lock never reports an error: its result is the cache
  after one call of \<open>unlock\<close> and no exception.  When the lock count is not 1,
  \<open>unlock\<close> itself fails with \<open>E57_ERROR_INTERNAL\<close> and the destructor returns the
  cache unchanged, without an error.
\<close>

theorem PacketLock_dtor_no_throw:
  "fst (PacketLock_dtor plock c) = None
   \<and> snd (PacketLock_dtor plock c) = snd (unlock c (cacheIndex plock))
   \<and> (lockCount c \<noteq> 1 \<longrightarrow>
        unlock c (cacheIndex plock) = (Some E57_ERROR_INTERNAL, c)
        \<and> PacketLock_dtor plock c = (None, c))"
  by (auto simp: PacketLock_dtor_def unlock_def split: prod.splits option.splits)

theorem PacketLock_dtor_no_throw_witness:
  "lockCount (scenario_cache [2, 0, 3, 0] 1) \<noteq> 1
   \<and> unlock (scenario_cache [2, 0, 3, 0] 1) 0
        = (Some E57_ERROR_INTERNAL, scenario_cache [2, 0, 3, 0] 1)
   \<and> PacketLock_dtor \<lparr> cacheIndex = 0 \<rparr> (scenario_cache [2, 0, 3, 0] 1)
        = (None, scenario_cache [2, 0, 3, 0] 1)"
  using PacketLock_dtor_no_throw [of "\<lparr> cacheIndex = 0 \<rparr>" "scenario_cache [2, 0, 3, 0] 1"]
  by (simp add: scenario_cache_def)

lemma readPacket_packetLength_le: "readPacket_packetLength header \<le> E57_DATA_PACKET_MAX"
  using unat_u16_less [of "EmptyPacketHeader.packetLogicalLengthMinus1 header"]
  by (simp add: readPacket_packetLength_def E57_DATA_PACKET_MAX_def u32_id)

lemma CheckedFile_read_length:
  "CheckedFile_read f n = (Inr bytes, f') \<Longrightarrow> length bytes = n"
  by (auto simp: CheckedFile_read_def split: if_splits)

text \<open>
  Claim C9.  The packet length that \<open>readPacket\<close> decodes from the four-byte header is
  at most \<open>E57_DATA_PACKET_MAX\<close>, whatever the header holds.  So \<open>readPacket\<close> is the
  same function with its over-long-length branch removed, and the full read of that many
  bytes fits a slot buffer of \<open>E57_DATA_PACKET_MAX\<close> bytes.
\<close>

theorem readPacket_length_guard:
  "readPacket_packetLength header \<le> E57_DATA_PACKET_MAX
   \<and> readPacket E57_MAX_DEBUG c oldestEntry packetLogicalOffset =
       (case CheckedFile_read (CheckedFile_seek (cFile c) (unat packetLogicalOffset))
               sizeof_EmptyPacketHeader of
          (Inl e, f) \<Rightarrow> (Some e, c \<lparr> cFile := f \<rparr>)
        | (Inr bytes, f) \<Rightarrow>
           (case EmptyPacketHeader_at bytes of
              Inl e \<Rightarrow> (Some e, c \<lparr> cFile := f \<rparr>)
            | Inr h \<Rightarrow> readPacket_full E57_MAX_DEBUG (c \<lparr> cFile := f \<rparr>) oldestEntry
                           packetLogicalOffset h (readPacket_packetLength h)))
   \<and> (CheckedFile_read file (readPacket_packetLength header) = (Inr bytes, file')
        \<and> length buf = E57_DATA_PACKET_MAX
        \<longrightarrow> buffer_write buf bytes = Inr (bytes @ drop (readPacket_packetLength header) buf))"
proof -
  have 1: "readPacket_packetLength h \<le> E57_DATA_PACKET_MAX" for h
    by (rule readPacket_packetLength_le)
  have 2: "readPacket E57_MAX_DEBUG c oldestEntry packetLogicalOffset =
       (case CheckedFile_read (CheckedFile_seek (cFile c) (unat packetLogicalOffset))
               sizeof_EmptyPacketHeader of
          (Inl e, f) \<Rightarrow> (Some e, c \<lparr> cFile := f \<rparr>)
        | (Inr bytes, f) \<Rightarrow>
           (case EmptyPacketHeader_at bytes of
              Inl e \<Rightarrow> (Some e, c \<lparr> cFile := f \<rparr>)
            | Inr h \<Rightarrow> readPacket_full E57_MAX_DEBUG (c \<lparr> cFile := f \<rparr>) oldestEntry
                           packetLogicalOffset h (readPacket_packetLength h)))"
    using 1 by (auto simp: readPacket_def Let_def not_less [symmetric] split: prod.splits sum.splits)
  have 3: "buffer_write buf bytes = Inr (bytes @ drop (readPacket_packetLength header) buf)"
    if "CheckedFile_read file (readPacket_packetLength header) = (Inr bytes, file')"
      "length buf = E57_DATA_PACKET_MAX"
    using CheckedFile_read_length [OF that(1)] that(2) 1 [of header]
    by (simp add: buffer_write_def)
  from 1 2 3 show ?thesis by blast
qed

theorem readPacket_length_guard_witness:
  "CheckedFile_read (scenario_file \<lparr> position := 4 \<rparr>)
       (readPacket_packetLength
          \<lparr> EmptyPacketHeader.packetType = 2, reserved1 = 0, packetLogicalLengthMinus1 = 3 \<rparr>)
     = (Inr [2, 0, 3, 0], scenario_file \<lparr> position := 8 \<rparr>)
   \<and> length (replicate 65536 (0 :: byte)) = E57_DATA_PACKET_MAX
   \<and> buffer_write (replicate 65536 0) [2, 0, 3, 0] = Inr ([2, 0, 3, 0] @ replicate 65532 0)"
  using readPacket_length_guard
    [of "\<lparr> EmptyPacketHeader.packetType = 2, reserved1 = 0, packetLogicalLengthMinus1 = 3 \<rparr>"
        False "scenario_cache [2, 0, 3, 0] 1" 0 8
        "scenario_file \<lparr> position := 4 \<rparr>" "[2, 0, 3, 0]" "scenario_file \<lparr> position := 8 \<rparr>"
        "replicate 65536 0"]
  by (simp add: readPacket_packetLength_def u32_def CheckedFile_read_def scenario_file_def
      E57_DATA_PACKET_MAX_def)

text \<open>
  Claim C2 at its input.  A cache of one slot holds the packet of offset 4.  Reading the
  packet at offset 8 into that slot fails in verification (its declared length 6 is not
  a multiple of 4), after the full read has overwritten the slot's buffer; the slot still
  carries offset 4.  The next \<open>lock\<close> of offset 4 is a cache hit and publishes the six
  bytes read from offset 8, which are not the bytes the file holds at offset 4.  The
  cache of this input is the one that the constructor, a \<open>lock\<close> of offset 4 and the
  release of that lock produce.
\<close>

theorem readPacket_failure_stale_hit:
  "PacketReadCache_ctor scenario_file 1 (\<lambda>i. [])
     = Inr \<lparr> lockCount = 0, useCount = 0, cFile = scenario_file,
             entries = [\<lparr> logicalOffset = 0, buffer = replicate 65536 0, lastUsed = 0 \<rparr>] \<rparr>
   \<and> lock False \<lparr> lockCount = 0, useCount = 0, cFile = scenario_file,
             entries = [\<lparr> logicalOffset = 0, buffer = replicate 65536 0, lastUsed = 0 \<rparr>] \<rparr> 4
     = (Inr (\<lparr> cacheIndex = 0 \<rparr>, [2, 0, 3, 0] @ replicate 65532 0),
        (scenario_cache [2, 0, 3, 0] 1) \<lparr> lockCount := 1 \<rparr>)
   \<and> PacketLock_dtor \<lparr> cacheIndex = 0 \<rparr> ((scenario_cache [2, 0, 3, 0] 1) \<lparr> lockCount := 1 \<rparr>)
     = (None, scenario_cache [2, 0, 3, 0] 1)
   \<and> readPacket False (scenario_cache [2, 0, 3, 0] 1) 0 8
     = (Some E57_ERROR_BAD_CV_PACKET,
        (scenario_cache [2, 0, 5, 0, 0, 0] 1) \<lparr> cFile := scenario_file \<lparr> position := 14 \<rparr> \<rparr>)
   \<and> lock False (scenario_cache [2, 0, 3, 0] 1) 8
     = (Inl E57_ERROR_BAD_CV_PACKET,
        (scenario_cache [2, 0, 5, 0, 0, 0] 1) \<lparr> cFile := scenario_file \<lparr> position := 14 \<rparr> \<rparr>)
   \<and> fst (lock False
             ((scenario_cache [2, 0, 5, 0, 0, 0] 1) \<lparr> cFile := scenario_file \<lparr> position := 14 \<rparr> \<rparr>) 4)
     = Inr (\<lparr> cacheIndex = 0 \<rparr>, [2, 0, 5, 0, 0, 0] @ replicate 65530 0)
   \<and> take 6 (drop 4 (contents scenario_file)) = [2, 0, 3, 0, 2, 0]"
  by (simp add: cache_eval scenario_file_def scenario_cache_def)

section \<open>Reading a valid packet into a slot\<close>

lemma CheckedFile_read_seek:
  "CheckedFile_read (CheckedFile_seek f p) n =
     (case file_bytes (contents f) p n of
        Some bs \<Rightarrow> (Inr bs, f \<lparr> position := p + n \<rparr>)
      | None \<Rightarrow> (Inl E57_ERROR_READ_FAILED, f \<lparr> position := p \<rparr>))"
  by (simp add: CheckedFile_read_def CheckedFile_seek_def file_bytes_def)

lemma file_bytes_length: "file_bytes cs p n = Some bs \<Longrightarrow> length bs = n"
  by (auto simp: file_bytes_def split: if_splits)

subsection \<open>Verification looks only at the bytes it is given\<close>

lemma read_u8_extend: "read_u8 buf i = Inr b \<Longrightarrow> read_u8 (buf @ rest) i = Inr b"
  by (auto simp: read_u8_def nth_append split: if_splits)

lemma read_u16_extend: "read_u16 buf i = Inr w \<Longrightarrow> read_u16 (buf @ rest) i = Inr w"
  by (auto simp: read_u16_def nth_append split: if_splits)

lemma sum_bsbLength_extend:
  "sum_bsbLength buf is acc = Inr t \<Longrightarrow> sum_bsbLength (buf @ rest) is acc = Inr t"
proof (induction "is" arbitrary: acc)
  case Nil
  then show ?case by simp
next
  case (Cons i "is")
  from Cons.prems obtain l where l: "bsbLength buf i = Inr l"
    and r: "sum_bsbLength buf is (u32 (acc + unat l)) = Inr t"
    by (auto split: sum.splits)
  from l have "bsbLength (buf @ rest) i = Inr l"
    by (simp add: bsbLength_def read_u16_extend)
  with Cons.IH [OF r] show ?case by simp
qed

lemma verify_padding_extend:
  "verify_padding buf is = Inr () \<Longrightarrow> verify_padding (buf @ rest) is = Inr ()"
proof (induction "is")
  case Nil
  then show ?case by simp
next
  case (Cons i "is")
  from Cons.prems have b: "read_u8 buf i = Inr 0" and r: "verify_padding buf is = Inr ()"
    by (auto split: sum.splits if_splits)
  from read_u8_extend [OF b] Cons.IH [OF r] show ?case by simp
qed

lemma DataPacketHeader_at_extend:
  "DataPacketHeader_at buf = Inr hp \<Longrightarrow> DataPacketHeader_at (buf @ rest) = Inr hp"
  by (auto simp: DataPacketHeader_at_def sizeof_DataPacketHeader_def nth_append split: if_splits)

lemma EmptyPacketHeader_at_extend:
  "EmptyPacketHeader_at buf = Inr hp \<Longrightarrow> EmptyPacketHeader_at (buf @ rest) = Inr hp"
  by (auto simp: EmptyPacketHeader_at_def sizeof_EmptyPacketHeader_def nth_append split: if_splits)

lemma IndexPacket_at_extend:
  "IndexPacket_at buf = Inr ip \<Longrightarrow> IndexPacket_at (buf @ rest) = Inr ip"
  by (auto simp: IndexPacket_at_def nth_append split: if_splits)

lemma IndexPacket_entries_extend:
  "IndexPacket_entries buf i = Inr en \<Longrightarrow> IndexPacket_entries (buf @ rest) i = Inr en"
  by (auto simp: IndexPacket_entries_def split: if_splits)

lemma verify_entries_extend:
  "verify_entries buf trc fs is = Inr () \<Longrightarrow> verify_entries (buf @ rest) trc fs is = Inr ()"
proof (induction "is")
  case Nil
  then show ?case by simp
next
  case (Cons i "is")
  from Cons.prems obtain cur where cur: "IndexPacket_entries buf i = Inr cur"
    by (auto split: sum.splits)
  from Cons.prems cur obtain prev
    where prev: "(if i > 0 then IndexPacket_entries buf (i - 1) else Inr cur) = Inr prev"
    by (auto split: sum.splits)
  then have prev': "(if i > 0 then IndexPacket_entries (buf @ rest) (i - 1) else Inr cur) = Inr prev"
    by (auto split: if_splits intro: IndexPacket_entries_extend)
  from Cons.prems cur prev have r: "verify_entries buf trc fs is = Inr ()"
    by (simp split: if_splits)
  from Cons.prems cur prev IndexPacket_entries_extend [OF cur, of rest] prev' Cons.IH [OF r]
  show ?case by (auto split: if_splits)
qed

lemma DataPacket_verify_extend:
  assumes "DataPacket_verify buf n = Inr ()"
  shows "DataPacket_verify (buf @ rest) n = Inr ()"
proof -
  from assms obtain hp where hp: "DataPacketHeader_at buf = Inr hp"
    by (auto simp: DataPacket_verify_def split: sum.splits)
  from assms hp have hv: "DataPacketHeader_verify hp n = Inr ()"
    by (auto simp: DataPacket_verify_def split: sum.splits)
  from assms hp hv obtain t where t: "sum_bsbLength buf [0 ..< unat (bytestreamCount hp)] 0 = Inr t"
    by (auto simp: DataPacket_verify_def split: sum.splits)
  from assms hp hv t show ?thesis
    using DataPacketHeader_at_extend [OF hp, of rest] sum_bsbLength_extend [OF t, of rest]
    by (auto simp: DataPacket_verify_def Let_def split: if_splits intro: verify_padding_extend)
qed

lemma IndexPacket_verify_extend:
  assumes "IndexPacket_verify dbg buf n trc fs = Inr ()"
  shows "IndexPacket_verify dbg (buf @ rest) n trc fs = Inr ()"
proof -
  from assms obtain ip where ip: "IndexPacket_at buf = Inr ip"
    by (auto simp: IndexPacket_verify_def split: sum.splits)
  show ?thesis
    using assms ip IndexPacket_at_extend [OF ip, of rest]
    by (auto simp: IndexPacket_verify_def Let_def verify_padding_extend verify_entries_extend
        split: if_splits sum.splits)
qed

lemma verify_by_type_extend:
  "verify_by_type dbg ty buf n = Inr () \<Longrightarrow> verify_by_type dbg ty (buf @ rest) n = Inr ()"
  by (auto simp: verify_by_type_def DataPacket_verify_extend IndexPacket_verify_extend
      EmptyPacketHeader_at_extend split: if_splits sum.splits)

lemma readPacket_valid:
  assumes v: "valid_packet dbg (contents (cFile c)) off"
    and slot: "slot < length (entries c)"
    and len: "length (buffer (entries c ! slot)) = E57_DATA_PACKET_MAX"
  shows "\<exists>f buf. readPacket dbg c slot off =
           (None, c \<lparr> cFile := f, useCount := useCount c + 1,
                      entries := (entries c)
                        [slot := (entries c ! slot) \<lparr> buffer := buf, logicalOffset := off,
                                                      lastUsed := useCount c + 1 \<rparr>] \<rparr>)
         \<and> contents f = contents (cFile c) \<and> length buf = E57_DATA_PACKET_MAX"
proof -
  let ?p = "unat off"
  let ?cs = "contents (cFile c)"
  from v obtain hb where hb: "file_bytes ?cs ?p sizeof_EmptyPacketHeader = Some hb"
    by (auto simp: valid_packet_def split: option.splits)
  from v hb obtain header where header: "EmptyPacketHeader_at hb = Inr header"
    by (auto simp: valid_packet_def split: sum.splits)
  let ?n = "readPacket_packetLength header"
  from v hb header obtain bytes where bytes: "file_bytes ?cs ?p ?n = Some bytes"
    by (auto simp: valid_packet_def split: option.splits)
  from v hb header bytes
  have ok: "verify_by_type dbg (EmptyPacketHeader.packetType header) bytes ?n = Inr ()"
    by (simp add: valid_packet_def)
  have n: "?n \<le> E57_DATA_PACKET_MAX" by (rule readPacket_packetLength_le)
  have lb: "length bytes = ?n" using bytes by (rule file_bytes_length)
  let ?buf = "bytes @ drop ?n (buffer (entries c ! slot))"
  let ?f2 = "(cFile c) \<lparr> position := ?p + sizeof_EmptyPacketHeader \<rparr>"
  let ?f4 = "(cFile c) \<lparr> position := ?p + ?n \<rparr>"
  have w: "buffer_write (buffer (entries c ! slot)) bytes = Inr ?buf"
    using lb n len by (simp add: buffer_write_def)
  have ok': "verify_by_type dbg (EmptyPacketHeader.packetType header) ?buf ?n = Inr ()"
    using ok by (rule verify_by_type_extend)
  have full: "readPacket_full dbg (c \<lparr> cFile := ?f2 \<rparr>) slot off header ?n =
           (None, c \<lparr> cFile := ?f4, useCount := useCount c + 1,
                      entries := (entries c)
                        [slot := (entries c ! slot) \<lparr> buffer := ?buf, logicalOffset := off,
                                                      lastUsed := useCount c + 1 \<rparr>] \<rparr>)"
    using slot bytes w ok'
    by (simp add: readPacket_full_def Let_def CheckedFile_read_seek)
  have "readPacket dbg c slot off =
           (None, c \<lparr> cFile := ?f4, useCount := useCount c + 1,
                      entries := (entries c)
                        [slot := (entries c ! slot) \<lparr> buffer := ?buf, logicalOffset := off,
                                                      lastUsed := useCount c + 1 \<rparr>] \<rparr>)"
    using hb header n full
    by (simp add: readPacket_def Let_def CheckedFile_read_seek)
  moreover have "contents ?f4 = ?cs" by simp
  moreover have "length ?buf = E57_DATA_PACKET_MAX" using lb n len by simp
  ultimately show ?thesis by blast
qed

subsection \<open>The two scans of lock\<close>

lemma find_match_None:
  "find_match es off i = None \<longleftrightarrow> off \<notin> logicalOffset ` set es"
  by (induction es arbitrary: i) auto

lemma find_match_Some:
  "find_match es off i = Some j \<Longrightarrow> i \<le> j \<and> j - i < length es \<and> logicalOffset (es ! (j - i)) = off"
proof (induction es arbitrary: i)
  case Nil
  then show ?case by simp
next
  case (Cons e es)
  show ?case
  proof (cases "off = logicalOffset e")
    case True
    with Cons.prems show ?thesis by simp
  next
    case False
    with Cons.prems have "find_match es off (Suc i) = Some j" by simp
    from Cons.IH [OF this] show ?thesis by (auto simp: Suc_diff_Suc less_eq_Suc_le)
  qed
qed

lemma is_lru_iff:
  "is_lru es j \<longleftrightarrow>
     j < length es \<and> (\<forall>i<length es. lastUsed (es ! j) \<le> lastUsed (es ! i))
     \<and> (\<forall>i<j. lastUsed (es ! j) < lastUsed (es ! i))"
  by (auto simp: is_lru_def list_all_length)

lemma is_lru_unique: "is_lru es j \<Longrightarrow> is_lru es k \<Longrightarrow> j = k"
proof (rule ccontr)
  assume j: "is_lru es j" and k: "is_lru es k" and ne: "j \<noteq> k"
  then consider "j < k" | "k < j" by linarith
  then show False
  proof cases
    case 1
    with j k have "lastUsed (es ! k) < lastUsed (es ! j)" "lastUsed (es ! j) \<le> lastUsed (es ! k)"
      by (auto simp: is_lru_iff)
    then show False by simp
  next
    case 2
    with j k have "lastUsed (es ! j) < lastUsed (es ! k)" "lastUsed (es ! k) \<le> lastUsed (es ! j)"
      by (auto simp: is_lru_iff)
    then show False by simp
  qed
qed

lemma find_oldest_lru:
  assumes "is_lru pre oe" and "ou = lastUsed (pre ! oe)" and "i = length pre"
  shows "is_lru (pre @ es) (find_oldest es i oe ou)"
  using assms
proof (induction es arbitrary: pre oe ou i)
  case Nil
  then show ?case by simp
next
  case (Cons e es)
  from Cons.prems(1) have oe: "oe < length pre" by (simp add: is_lru_iff)
  have len: "Suc i = length (pre @ [e])" using Cons.prems(3) by simp
  show ?case
  proof (cases "lastUsed e < ou")
    case True
    have lru: "is_lru (pre @ [e]) i"
      using Cons.prems True
      by (auto simp: is_lru_iff nth_append less_Suc_eq intro: order.strict_trans2 less_imp_le)
    have ou': "lastUsed e = lastUsed ((pre @ [e]) ! i)" using Cons.prems(3) by simp
    from Cons.IH [OF lru ou' len] True show ?thesis by simp
  next
    case False
    have lru: "is_lru (pre @ [e]) oe"
      using Cons.prems False
      by (auto simp: is_lru_iff nth_append less_Suc_eq)
    have ou': "ou = lastUsed ((pre @ [e]) ! oe)" using Cons.prems(2) oe by (simp add: nth_append)
    from Cons.IH [OF lru ou' len] False show ?thesis by simp
  qed
qed

lemma find_oldest_is_lru:
  "is_lru (e0 # es) (find_oldest (e0 # es) 0 0 (lastUsed e0))"
proof -
  have "is_lru [e0] 0" by (simp add: is_lru_def)
  from find_oldest_lru [OF this, of "lastUsed e0" 1 es]
  show ?thesis by simp
qed

lemma find_oldest_less:
  "find_oldest (e0 # es) 0 0 (lastUsed e0) < length (e0 # es)"
  using find_oldest_is_lru [of e0 es] by (simp add: is_lru_iff)

lemma readPacket_full_other_slots:
  "length (entries (snd (readPacket_full dbg c j off header n))) = length (entries c)
   \<and> (\<forall>i. i \<noteq> j \<longrightarrow> entries (snd (readPacket_full dbg c j off header n)) ! i = entries c ! i)"
  by (auto simp: readPacket_full_def Let_def split: prod.splits sum.splits)

lemma readPacket_other_slots:
  "length (entries (snd (readPacket dbg c j off))) = length (entries c)
   \<and> (\<forall>i. i \<noteq> j \<longrightarrow> entries (snd (readPacket dbg c j off)) ! i = entries c ! i)"
  by (simp add: readPacket_def Let_def readPacket_full_other_slots split: prod.splits sum.splits)

lemma lock_locked:
  "lockCount c > 0 \<Longrightarrow> lock dbg c off = (Inl E57_ERROR_INTERNAL, c)"
  by (simp add: lock_def)

lemma lock_hit:
  assumes "lockCount c = 0" and "off \<noteq> 0" and "find_match (entries c) off 0 = Some i"
  shows "lock dbg c off =
           (Inr (\<lparr> cacheIndex = i \<rparr>, buffer (entries c ! i)),
            c \<lparr> useCount := useCount c + 1,
                entries := (entries c) [i := (entries c ! i) \<lparr> lastUsed := useCount c + 1 \<rparr>],
                lockCount := 1 \<rparr>)"
proof -
  from find_match_Some [OF assms(3)] have "i < length (entries c)" by simp
  with assms show ?thesis by (simp add: lock_def Let_def)
qed

lemma lock_miss:
  assumes "lockCount c = 0" and "off \<noteq> 0" and "entries c \<noteq> []"
    and "off \<notin> logicalOffset ` set (entries c)"
  shows "\<exists>j. is_lru (entries c) j
           \<and> lock dbg c off =
               (case readPacket dbg c j off of
                  (Some e, c1) \<Rightarrow> (Inl e, c1)
                | (None, c1) \<Rightarrow>
                    (Inr (\<lparr> cacheIndex = j \<rparr>, buffer (entries c1 ! j)),
                     c1 \<lparr> lockCount := lockCount c1 + 1 \<rparr>))"
proof -
  from assms(3) obtain e0 es where es: "entries c = e0 # es" by (cases "entries c") auto
  let ?j = "find_oldest (e0 # es) 0 0 (lastUsed e0)"
  have lru: "is_lru (entries c) ?j" unfolding es by (rule find_oldest_is_lru)
  from assms(4) have m: "find_match (entries c) off 0 = None" by (simp add: find_match_None)
  have "lock dbg c off =
               (case readPacket dbg c ?j off of
                  (Some e, c1) \<Rightarrow> (Inl e, c1)
                | (None, c1) \<Rightarrow>
                    (Inr (\<lparr> cacheIndex = ?j \<rparr>, buffer (entries c1 ! ?j)),
                     c1 \<lparr> lockCount := lockCount c1 + 1 \<rparr>))"
    using assms(1,2) m [unfolded es]
    by (simp add: lock_def Let_def es del: find_oldest.simps find_match.simps)
  with lru show ?thesis by blast
qed

text \<open>
  The lock count protocol, for every cache state.  While a lock is outstanding
  (\<open>lockCount = 1\<close>), every call of \<open>lock\<close> fails with \<open>E57_ERROR_INTERNAL\<close> and leaves
  the cache as it was.  Destroying the outstanding lock sets the lock count back to 0, and
  then \<open>lock\<close> succeeds for every nonzero offset that is cached or whose packet passes
  the verification that \<open>readPacket\<close> applies (\<open>valid_packet\<close>), and the lock count is 1
  again.
\<close>


lemma lock_exclusive:
  assumes "lockCount c = 1"
  shows "lock dbg c off = (Inl E57_ERROR_INTERNAL, c)
       \<and> PacketLock_dtor plock c = (None, c \<lparr> lockCount := 0 \<rparr>)
       \<and> (off' \<noteq> 0 \<and> cache_ok c
            \<and> (off' \<in> logicalOffset ` set (entries c) \<or> valid_packet dbg (contents (cFile c)) off')
          \<longrightarrow> (\<exists>plock' pkt c'. lock dbg (c \<lparr> lockCount := 0 \<rparr>) off' = (Inr (plock', pkt), c')
                 \<and> lockCount c' = 1))"
proof -
  let ?c = "c \<lparr> lockCount := 0 \<rparr>"
  have 1: "lock dbg c off = (Inl E57_ERROR_INTERNAL, c)"
    using assms by (simp add: lock_locked)
  have 2: "PacketLock_dtor plock c = (None, ?c)"
    using assms by (simp add: PacketLock_dtor_def unlock_def)
  have 3: "\<exists>plock' pkt c'. lock dbg ?c off' = (Inr (plock', pkt), c') \<and> lockCount c' = 1"
    if nz: "off' \<noteq> 0" and ok: "cache_ok c"
      and v: "off' \<in> logicalOffset ` set (entries c) \<or> valid_packet dbg (contents (cFile c)) off'"
  proof (cases "find_match (entries c) off' 0")
    case (Some i)
    from lock_hit [of ?c off' i dbg] nz Some show ?thesis by simp
  next
    case None
    then have miss: "off' \<notin> logicalOffset ` set (entries ?c)" by (simp add: find_match_None)
    with v have valid: "valid_packet dbg (contents (cFile ?c)) off'" by simp
    from ok have ne: "entries ?c \<noteq> []" by (simp add: cache_ok_def)
    from lock_miss [of ?c off' dbg] nz ne miss obtain j where j: "is_lru (entries ?c) j"
      and l: "lock dbg ?c off' =
               (case readPacket dbg ?c j off' of
                  (Some e, c1) \<Rightarrow> (Inl e, c1)
                | (None, c1) \<Rightarrow>
                    (Inr (\<lparr> cacheIndex = j \<rparr>, buffer (entries c1 ! j)),
                     c1 \<lparr> lockCount := lockCount c1 + 1 \<rparr>))"
      by auto
    from j have jl: "j < length (entries ?c)" by (simp add: is_lru_iff)
    with ok have len: "length (buffer (entries ?c ! j)) = E57_DATA_PACKET_MAX"
      by (simp add: cache_ok_def list_all_length)
    from readPacket_valid [OF valid jl len] obtain f buf where
      "readPacket dbg ?c j off' =
           (None, ?c \<lparr> cFile := f, useCount := useCount ?c + 1,
                      entries := (entries ?c)
                        [j := (entries ?c ! j) \<lparr> buffer := buf, logicalOffset := off',
                                                  lastUsed := useCount ?c + 1 \<rparr>] \<rparr>)"
      by blast
    with l show ?thesis by simp
  qed
  from 1 2 3 show ?thesis by blast
qed

lemma scenario_valid:
  "valid_packet False (contents scenario_file) 4"
  "valid_packet False (contents scenario_file) 16"
  "valid_packet False (contents scenario_file) 20"
  "\<not> valid_packet False (contents scenario_file) 8"
  by (simp_all add: valid_packet_def file_bytes_def scenario_file_def cache_eval)

lemma lock_exclusive_example:
  "lockCount ((scenario_cache [2, 0, 3, 0] 1) \<lparr> lockCount := 1 \<rparr>) = 1
   \<and> cache_ok ((scenario_cache [2, 0, 3, 0] 1) \<lparr> lockCount := 1 \<rparr>)
   \<and> valid_packet False (contents scenario_file) 16
   \<and> lock False ((scenario_cache [2, 0, 3, 0] 1) \<lparr> lockCount := 1 \<rparr>) 16
       = (Inl E57_ERROR_INTERNAL, (scenario_cache [2, 0, 3, 0] 1) \<lparr> lockCount := 1 \<rparr>)
   \<and> PacketLock_dtor \<lparr> cacheIndex = 0 \<rparr> ((scenario_cache [2, 0, 3, 0] 1) \<lparr> lockCount := 1 \<rparr>)
       = (None, scenario_cache [2, 0, 3, 0] 1)
   \<and> (\<exists>plock' pkt c'. lock False (scenario_cache [2, 0, 3, 0] 1) 16 = (Inr (plock', pkt), c')
         \<and> lockCount c' = 1)"
  using lock_exclusive [of "(scenario_cache [2, 0, 3, 0] 1) \<lparr> lockCount := 1 \<rparr>"
      False 16 "\<lparr> cacheIndex = 0 \<rparr>" 16] scenario_valid(2)
  by (simp add: scenario_cache_def cache_ok_def E57_DATA_PACKET_MAX_def)

lemma scenario_index_file_contents:
  "contents scenario_index_file =
     [0, 0, 0, 0,  2, 0, 3, 0,  2, 0, 5, 0, 0, 0, 0, 0,  2, 0, 3, 0,  2, 0, 3, 0,
      0, 0, 63, 0, 3, 0, 0] @ replicate 9 0 @
     [0, 0, 0, 0, 0, 0, 0, 0,  0, 4, 0, 0, 0, 0, 0, 0,
      5, 0, 0, 0, 0, 0, 0, 0,  0, 8, 0, 0, 0, 0, 0, 0,
      9, 0, 0, 0, 0, 0, 0, 0,  0, 16, 0, 0, 0, 0, 0, 0]"
  by (simp add: scenario_index_file_def scenario_file_def scenario_index_packet_def)

text \<open>
  Claim C6 at its input.  The file holds at offset 24 the index packet of the scenario of
  claim C1: three entries in increasing order, level 0, zero reserved bytes, declared
  length 64.  A cache of one slot is constructed and offset 4 is locked.  A second
  \<open>lock\<close> is refused with \<open>E57_ERROR_INTERNAL\<close> and leaves the cache unchanged, and the
  destructor of the lock sets the lock count back to 0.  The \<open>lock\<close> of offset 24 that
  follows does not succeed: \<open>readPacket\<close> reads the packet and \<open>IndexPacket_verify\<close>
  rejects its declared length 64 against the size of the whole struct, so \<open>lock\<close> fails
  with \<open>E57_ERROR_BAD_CV_PACKET\<close>, with and without \<^verbatim>\<open>E57_MAX_DEBUG\<close>.
\<close>

theorem lock_after_release_index_packet:
  "PacketReadCache_ctor scenario_index_file 1 (\<lambda>i. [])
     = Inr \<lparr> lockCount = 0, useCount = 0, cFile = scenario_index_file,
             entries = [\<lparr> logicalOffset = 0, buffer = replicate 65536 0, lastUsed = 0 \<rparr>] \<rparr>
   \<and> lock E57_MAX_DEBUG \<lparr> lockCount = 0, useCount = 0, cFile = scenario_index_file,
             entries = [\<lparr> logicalOffset = 0, buffer = replicate 65536 0, lastUsed = 0 \<rparr>] \<rparr> 4
     = (Inr (\<lparr> cacheIndex = 0 \<rparr>, [2, 0, 3, 0] @ replicate 65532 0), scenario_index_cache 1)
   \<and> lock E57_MAX_DEBUG (scenario_index_cache 1) 24
     = (Inl E57_ERROR_INTERNAL, scenario_index_cache 1)
   \<and> PacketLock_dtor \<lparr> cacheIndex = 0 \<rparr> (scenario_index_cache 1)
     = (None, scenario_index_cache 0)
   \<and> take 64 (drop 24 (contents scenario_index_file)) = take 64 (scenario_index_packet False)
   \<and> fst (readPacket E57_MAX_DEBUG (scenario_index_cache 0) 0 24) = Some E57_ERROR_BAD_CV_PACKET
   \<and> fst (lock E57_MAX_DEBUG (scenario_index_cache 0) 24) = Inl E57_ERROR_BAD_CV_PACKET"
proof -
  have ctor: "PacketReadCache_ctor scenario_index_file 1 (\<lambda>i. [])
     = Inr \<lparr> lockCount = 0, useCount = 0, cFile = scenario_index_file,
             entries = [\<lparr> logicalOffset = 0, buffer = replicate 65536 0, lastUsed = 0 \<rparr>] \<rparr>"
    by (simp add: PacketReadCache_ctor_def new_char_array_def E57_DATA_PACKET_MAX_def)
  have first: "lock E57_MAX_DEBUG \<lparr> lockCount = 0, useCount = 0, cFile = scenario_index_file,
             entries = [\<lparr> logicalOffset = 0, buffer = replicate 65536 0, lastUsed = 0 \<rparr>] \<rparr> 4
     = (Inr (\<lparr> cacheIndex = 0 \<rparr>, [2, 0, 3, 0] @ replicate 65532 0), scenario_index_cache 1)"
    by (simp add: cache_eval scenario_index_cache_def scenario_index_file_contents)
  have second: "lock E57_MAX_DEBUG (scenario_index_cache 1) 24
     = (Inl E57_ERROR_INTERNAL, scenario_index_cache 1)"
    by (simp add: lock_def scenario_index_cache_def)
  have release: "PacketLock_dtor \<lparr> cacheIndex = 0 \<rparr> (scenario_index_cache 1)
     = (None, scenario_index_cache 0)"
    by (simp add: PacketLock_dtor_def unlock_def scenario_index_cache_def)
  have packet: "take 64 (drop 24 (contents scenario_index_file))
     = take 64 (scenario_index_packet False)"
    by (simp add: scenario_index_file_def scenario_file_def)
  have read: "fst (readPacket E57_MAX_DEBUG (scenario_index_cache 0) 0 24)
     = Some E57_ERROR_BAD_CV_PACKET"
    by (simp add: cache_eval scenario_index_cache_def scenario_index_file_contents
        IndexPacket_verify_def IndexPacket_at_def sizeof_IndexPacket_def MAX_ENTRIES_def)
  have third: "fst (lock E57_MAX_DEBUG (scenario_index_cache 0) 24)
     = Inl E57_ERROR_BAD_CV_PACKET"
    by (simp add: cache_eval scenario_index_cache_def scenario_index_file_contents
        IndexPacket_verify_def IndexPacket_at_def sizeof_IndexPacket_def MAX_ENTRIES_def)
  from ctor first second release packet read third show ?thesis
    by (intro conjI)
qed

section \<open>Least recently used replacement\<close>

lemma stamp_unat: "n < 4294967296 \<Longrightarrow> unat (of_nat n :: 32 word) = n"
  by (simp add: unat_of_nat)

lemma stamp_pos: "0 < n \<Longrightarrow> n < 4294967296 \<Longrightarrow> (0 :: 32 word) < of_nat n"
  by (simp add: word_less_nat_alt stamp_unat)

lemma stamp_mono: "m \<le> n \<Longrightarrow> n < 4294967296 \<Longrightarrow> (of_nat m :: 32 word) \<le> of_nat n"
  by (simp add: word_le_nat_alt stamp_unat)

lemma ctor_filled:
  "PacketReadCache_ctor file N uninit = Inr c0 \<Longrightarrow> filled (contents file) N [] c0 \<and> 0 < N"
  by (auto simp: PacketReadCache_ctor_def filled_def new_char_array_def E57_DATA_PACKET_MAX_def
      split: if_splits)

lemma filled_lru_next:
  assumes f: "filled cs N offs c" and k: "length offs < N" and N: "N < 4294967296"
  shows "is_lru (entries c) (length offs)"
  unfolding is_lru_iff
proof (intro conjI allI impI)
  show "length offs < length (entries c)" using f k by (simp add: filled_def)
next
  fix i assume "i < length (entries c)"
  from f k have "lastUsed (entries c ! length offs) = 0" by (simp add: filled_def)
  then show "lastUsed (entries c ! length offs) \<le> lastUsed (entries c ! i)" by simp
next
  fix i assume i: "i < length offs"
  from f k have z: "lastUsed (entries c ! length offs) = 0" by (simp add: filled_def)
  from f k i have "lastUsed (entries c ! i) = of_nat (i + 1)" by (simp add: filled_def)
  moreover have "(0 :: 32 word) < of_nat (i + 1)" using i k N by (intro stamp_pos) simp_all
  ultimately show "lastUsed (entries c ! length offs) < lastUsed (entries c ! i)" using z by simp
qed

lemma filled_lru_full:
  assumes f: "filled cs N offs c" and k: "length offs = N" and N: "N < 4294967296" and pos: "0 < N"
  shows "is_lru (entries c) 0"
  unfolding is_lru_iff
proof (intro conjI allI impI)
  show "0 < length (entries c)" using f pos by (simp add: filled_def)
next
  fix i assume "i < length (entries c)"
  with f have i: "i < N" by (simp add: filled_def)
  from f k pos have "lastUsed (entries c ! 0) = of_nat 1" by (simp add: filled_def)
  moreover from f k i have "lastUsed (entries c ! i) = of_nat (i + 1)" by (simp add: filled_def)
  moreover have "(of_nat 1 :: 32 word) \<le> of_nat (i + 1)" using i N by (intro stamp_mono) simp_all
  ultimately show "lastUsed (entries c ! 0) \<le> lastUsed (entries c ! i)" by simp
next
  fix i :: nat assume "i < 0"
  then show "lastUsed (entries c ! 0) < lastUsed (entries c ! i)" by simp
qed

lemma filled_offsets:
  assumes f: "filled cs N offs c" and k: "length offs \<le> N"
  shows "logicalOffset ` set (entries c) \<subseteq> insert 0 (set offs)"
proof
  fix x assume "x \<in> logicalOffset ` set (entries c)"
  then obtain i where i: "i < length (entries c)" and x: "x = logicalOffset (entries c ! i)"
    by (auto simp: in_set_conv_nth)
  from f i have iN: "i < N" by (simp add: filled_def)
  show "x \<in> insert 0 (set offs)"
  proof (cases "i < length offs")
    case True
    with f iN x have "x = offs ! i" by (simp add: filled_def)
    with True show ?thesis by simp
  next
    case False
    with f iN x have "x = 0" by (simp add: filled_def)
    then show ?thesis by simp
  qed
qed

lemma filled_step:
  assumes f: "filled cs N offs c" and k: "length offs < N" and N: "N < 4294967296"
    and nz: "x \<noteq> 0" and new: "x \<notin> set offs" and v: "valid_packet dbg cs x"
  shows "\<exists>pkt c1. lock dbg c x = (Inr (\<lparr> cacheIndex = length offs \<rparr>, pkt), c1)
           \<and> filled cs N (offs @ [x]) (snd (PacketLock_dtor \<lparr> cacheIndex = length offs \<rparr> c1))"
proof -
  let ?k = "length offs"
  from f have lc: "lockCount c = 0" and uc: "useCount c = of_nat ?k"
    and cs: "contents (cFile c) = cs" and len: "length (entries c) = N"
    by (simp_all add: filled_def)
  from len k have ne: "entries c \<noteq> []" by auto
  from filled_offsets [OF f] k nz new have miss: "x \<notin> logicalOffset ` set (entries c)" by auto
  from lock_miss [OF lc nz ne miss, of dbg] obtain j where j: "is_lru (entries c) j"
    and l: "lock dbg c x =
               (case readPacket dbg c j x of
                  (Some e, c1) \<Rightarrow> (Inl e, c1)
                | (None, c1) \<Rightarrow>
                    (Inr (\<lparr> cacheIndex = j \<rparr>, buffer (entries c1 ! j)),
                     c1 \<lparr> lockCount := lockCount c1 + 1 \<rparr>))"
    by blast
  from is_lru_unique [OF j filled_lru_next [OF f k N]] have jk: "j = ?k" .
  from k len have kl: "?k < length (entries c)" by simp
  from f k have bl: "length (buffer (entries c ! ?k)) = E57_DATA_PACKET_MAX" by (simp add: filled_def)
  from v cs have v': "valid_packet dbg (contents (cFile c)) x" by simp
  from readPacket_valid [OF v' kl bl] obtain fl buf where
    r: "readPacket dbg c ?k x =
           (None, c \<lparr> cFile := fl, useCount := useCount c + 1,
                      entries := (entries c)
                        [?k := (entries c ! ?k) \<lparr> buffer := buf, logicalOffset := x,
                                                    lastUsed := useCount c + 1 \<rparr>] \<rparr>)"
    and fl: "contents fl = contents (cFile c)" and bufl: "length buf = E57_DATA_PACKET_MAX"
    by blast
  let ?c1 = "c \<lparr> cFile := fl, useCount := useCount c + 1,
                  entries := (entries c)
                    [?k := (entries c ! ?k) \<lparr> buffer := buf, logicalOffset := x,
                                                lastUsed := useCount c + 1 \<rparr>],
                  lockCount := 1 \<rparr>"
  from l jk r lc kl have lock: "lock dbg c x = (Inr (\<lparr> cacheIndex = ?k \<rparr>, buf), ?c1)"
    by simp
  have d: "snd (PacketLock_dtor \<lparr> cacheIndex = ?k \<rparr> ?c1) = ?c1 \<lparr> lockCount := 0 \<rparr>"
    by (simp add: PacketLock_dtor_def unlock_def)
  have "filled cs N (offs @ [x]) (?c1 \<lparr> lockCount := 0 \<rparr>)"
    unfolding filled_def
  proof (intro conjI allI impI)
    fix i assume i: "i < N"
    from f i have old: "length (buffer (entries c ! i)) = E57_DATA_PACKET_MAX"
      "i < ?k \<Longrightarrow> logicalOffset (entries c ! i) = offs ! i \<and> lastUsed (entries c ! i) = of_nat (i + 1)"
      "\<not> i < ?k \<Longrightarrow> logicalOffset (entries c ! i) = 0 \<and> lastUsed (entries c ! i) = 0"
      by (simp_all add: filled_def)
    show "length (buffer (entries (?c1 \<lparr> lockCount := 0 \<rparr>) ! i)) = E57_DATA_PACKET_MAX"
      using old(1) bufl kl by (cases "i = ?k") simp_all
    show "if i < length (offs @ [x])
          then logicalOffset (entries (?c1 \<lparr> lockCount := 0 \<rparr>) ! i) = (offs @ [x]) ! i
               \<and> lastUsed (entries (?c1 \<lparr> lockCount := 0 \<rparr>) ! i) = of_nat (i + 1)
          else logicalOffset (entries (?c1 \<lparr> lockCount := 0 \<rparr>) ! i) = 0
               \<and> lastUsed (entries (?c1 \<lparr> lockCount := 0 \<rparr>) ! i) = 0"
    proof (cases "i = ?k")
      case True
      with kl uc show ?thesis by simp
    next
      case False
      with old(2,3) kl i show ?thesis by (auto simp: nth_append less_Suc_eq)
    qed
  qed (use uc cs fl len in simp_all)
  with lock d show ?thesis by auto
qed

lemma filled_run:
  assumes "filled cs N xs c" and "length (xs @ ys) \<le> N" and "N < 4294967296"
    and "distinct (xs @ ys)" and "0 \<notin> set ys" and "\<forall>y\<in>set ys. valid_packet dbg cs y"
  shows "\<exists>c'. lock_release_all dbg c ys = Some ([length xs ..< length xs + length ys], c')
           \<and> filled cs N (xs @ ys) c'"
  using assms
proof (induction ys arbitrary: xs c)
  case Nil
  then show ?case by simp
next
  case (Cons y ys)
  from Cons.prems have k: "length xs < N" and nz: "y \<noteq> 0" and new: "y \<notin> set xs"
    and v: "valid_packet dbg cs y"
    by auto
  from filled_step [OF Cons.prems(1) k Cons.prems(3) nz new v] obtain pkt c1 where
    l: "lock dbg c y = (Inr (\<lparr> cacheIndex = length xs \<rparr>, pkt), c1)"
    and f: "filled cs N (xs @ [y]) (snd (PacketLock_dtor \<lparr> cacheIndex = length xs \<rparr> c1))"
    by blast
  from Cons.IH [OF f] Cons.prems obtain c' where
    r: "lock_release_all dbg (snd (PacketLock_dtor \<lparr> cacheIndex = length xs \<rparr> c1)) ys
          = Some ([length (xs @ [y]) ..< length (xs @ [y]) + length ys], c')"
    and f': "filled cs N ((xs @ [y]) @ ys) c'"
    by auto
  have "[length xs ..< length xs + length (y # ys)]
          = length xs # [Suc (length xs) ..< length xs + length (y # ys)]"
    by (rule upt_conv_Cons) simp
  also have "[Suc (length xs) ..< length xs + length (y # ys)]
          = [length (xs @ [y]) ..< length (xs @ [y]) + length ys]"
    by (simp del: upt_Suc)
  finally have u: "[length xs ..< length xs + length (y # ys)]
          = length xs # [length (xs @ [y]) ..< length (xs @ [y]) + length ys]" .
  have "lock_release_all dbg c (y # ys)
          = Some (length xs # [length (xs @ [y]) ..< length (xs @ [y]) + length ys], c')"
    using l r by simp
  with f' show ?case unfolding u by simp
qed

text \<open>
  Claim C7.  When no lock is outstanding and a nonzero offset is in no slot, \<open>lock\<close>
  reads the packet into the least recently used slot (minimal \<open>lastUsed\<close> stamp, lowest
  index among equals), returns a lock on that slot when the read succeeds, and leaves
  every other slot as it was.  In particular, after the constructor has made a cache of
  \<open>N\<close> slots and \<open>N\<close> distinct valid offsets were locked and released one after the
  other, the \<open>k\<close>-th lock has used slot \<open>k\<close>, so slot 0 is the slot whose most recent
  use is earliest; the next lock of a further offset selects slot 0, and when that offset
  is valid it replaces the first offset there and keeps the others.
\<close>

theorem lock_replaces_least_recently_used:
  "(lockCount c = 0 \<and> off \<noteq> 0 \<and> entries c \<noteq> [] \<and> off \<notin> logicalOffset ` set (entries c)
      \<longrightarrow> (\<exists>j. is_lru (entries c) j
             \<and> lock dbg c off =
                 (case readPacket dbg c j off of
                    (Some e, c1) \<Rightarrow> (Inl e, c1)
                  | (None, c1) \<Rightarrow>
                      (Inr (\<lparr> cacheIndex = j \<rparr>, buffer (entries c1 ! j)),
                       c1 \<lparr> lockCount := lockCount c1 + 1 \<rparr>))
             \<and> (\<forall>i<length (entries c). i \<noteq> j \<longrightarrow>
                   entries (snd (lock dbg c off)) ! i = entries c ! i)))
   \<and> (PacketReadCache_ctor cfile N uninit = Inr c0 \<and> length offs = N \<and> N < 4294967296
        \<and> distinct offs \<and> 0 \<notin> set offs \<and> (\<forall>x\<in>set offs. valid_packet dbg (contents cfile) x)
        \<and> off \<noteq> 0 \<and> off \<notin> set offs
      \<longrightarrow> (\<exists>c'. lock_release_all dbg c0 offs = Some ([0 ..< N], c')
             \<and> (\<forall>k<N. logicalOffset (entries c' ! k) = offs ! k)
             \<and> is_lru (entries c') 0
             \<and> lock dbg c' off =
                 (case readPacket dbg c' 0 off of
                    (Some e, c1) \<Rightarrow> (Inl e, c1)
                  | (None, c1) \<Rightarrow>
                      (Inr (\<lparr> cacheIndex = 0 \<rparr>, buffer (entries c1 ! 0)),
                       c1 \<lparr> lockCount := lockCount c1 + 1 \<rparr>))
             \<and> (valid_packet dbg (contents cfile) off \<longrightarrow>
                  (\<exists>pkt c''. lock dbg c' off = (Inr (\<lparr> cacheIndex = 0 \<rparr>, pkt), c'')
                     \<and> logicalOffset (entries c'' ! 0) = off
                     \<and> (\<forall>k<N. 0 < k \<longrightarrow> logicalOffset (entries c'' ! k) = offs ! k)))))"
proof (intro conjI impI)
  assume h: "lockCount c = 0 \<and> off \<noteq> 0 \<and> entries c \<noteq> [] \<and> off \<notin> logicalOffset ` set (entries c)"
  from lock_miss [of c off dbg] h obtain j where j: "is_lru (entries c) j"
    and l: "lock dbg c off =
                 (case readPacket dbg c j off of
                    (Some e, c1) \<Rightarrow> (Inl e, c1)
                  | (None, c1) \<Rightarrow>
                      (Inr (\<lparr> cacheIndex = j \<rparr>, buffer (entries c1 ! j)),
                       c1 \<lparr> lockCount := lockCount c1 + 1 \<rparr>))"
    by blast
  have "entries (snd (lock dbg c off)) = entries (snd (readPacket dbg c j off))"
    unfolding l by (simp split: prod.splits option.splits)
  with readPacket_other_slots [of dbg c j off]
  have "\<forall>i<length (entries c). i \<noteq> j \<longrightarrow> entries (snd (lock dbg c off)) ! i = entries c ! i"
    by simp
  with j l show "\<exists>j. is_lru (entries c) j
             \<and> lock dbg c off =
                 (case readPacket dbg c j off of
                    (Some e, c1) \<Rightarrow> (Inl e, c1)
                  | (None, c1) \<Rightarrow>
                      (Inr (\<lparr> cacheIndex = j \<rparr>, buffer (entries c1 ! j)),
                       c1 \<lparr> lockCount := lockCount c1 + 1 \<rparr>))
             \<and> (\<forall>i<length (entries c). i \<noteq> j \<longrightarrow>
                   entries (snd (lock dbg c off)) ! i = entries c ! i)"
    by blast
next
  assume h: "PacketReadCache_ctor cfile N uninit = Inr c0 \<and> length offs = N \<and> N < 4294967296
        \<and> distinct offs \<and> 0 \<notin> set offs \<and> (\<forall>x\<in>set offs. valid_packet dbg (contents cfile) x)
        \<and> off \<noteq> 0 \<and> off \<notin> set offs"
  let ?cs = "contents cfile"
  from h ctor_filled [of cfile N uninit c0] have f0: "filled ?cs N [] c0" and pos: "0 < N" by auto
  from filled_run [OF f0, of offs dbg] h obtain c' where
    run: "lock_release_all dbg c0 offs = Some ([0 ..< N], c')" and f: "filled ?cs N offs c'"
    by auto
  from h have len: "length offs = N" and N: "N < 4294967296" and nz: "off \<noteq> 0"
    and new: "off \<notin> set offs" by auto
  from f len have offsets: "\<forall>k<N. logicalOffset (entries c' ! k) = offs ! k"
    by (simp add: filled_def)
  from filled_lru_full [OF f len N pos] have lru: "is_lru (entries c') 0" .
  from f have lc: "lockCount c' = 0" and cs: "contents (cFile c') = ?cs"
    and el: "length (entries c') = N" by (simp_all add: filled_def)
  from el pos have ne: "entries c' \<noteq> []" by auto
  from filled_offsets [OF f] len nz new have miss: "off \<notin> logicalOffset ` set (entries c')" by auto
  from lock_miss [OF lc nz ne miss, of dbg] obtain j where j: "is_lru (entries c') j"
    and l: "lock dbg c' off =
               (case readPacket dbg c' j off of
                  (Some e, c1) \<Rightarrow> (Inl e, c1)
                | (None, c1) \<Rightarrow>
                    (Inr (\<lparr> cacheIndex = j \<rparr>, buffer (entries c1 ! j)),
                     c1 \<lparr> lockCount := lockCount c1 + 1 \<rparr>))"
    by blast
  from is_lru_unique [OF j lru] have j0: "j = 0" .
  note l0 = l [unfolded j0]
  have evict: "\<exists>pkt c''. lock dbg c' off = (Inr (\<lparr> cacheIndex = 0 \<rparr>, pkt), c'')
                     \<and> logicalOffset (entries c'' ! 0) = off
                     \<and> (\<forall>k<N. 0 < k \<longrightarrow> logicalOffset (entries c'' ! k) = offs ! k)"
    if v: "valid_packet dbg ?cs off"
  proof -
    from el pos have s0: "0 < length (entries c')" by simp
    from f pos have bl: "length (buffer (entries c' ! 0)) = E57_DATA_PACKET_MAX"
      by (simp add: filled_def)
    from v cs have v': "valid_packet dbg (contents (cFile c')) off" by simp
    from readPacket_valid [OF v' s0 bl] obtain fl buf where
      r: "readPacket dbg c' 0 off =
           (None, c' \<lparr> cFile := fl, useCount := useCount c' + 1,
                      entries := (entries c')
                        [0 := (entries c' ! 0) \<lparr> buffer := buf, logicalOffset := off,
                                                  lastUsed := useCount c' + 1 \<rparr>] \<rparr>)"
      by blast
    show ?thesis unfolding l0 r using s0 offsets el by simp
  qed
  from run offsets lru l0 evict
  show "\<exists>c'. lock_release_all dbg c0 offs = Some ([0 ..< N], c')
             \<and> (\<forall>k<N. logicalOffset (entries c' ! k) = offs ! k)
             \<and> is_lru (entries c') 0
             \<and> lock dbg c' off =
                 (case readPacket dbg c' 0 off of
                    (Some e, c1) \<Rightarrow> (Inl e, c1)
                  | (None, c1) \<Rightarrow>
                      (Inr (\<lparr> cacheIndex = 0 \<rparr>, buffer (entries c1 ! 0)),
                       c1 \<lparr> lockCount := lockCount c1 + 1 \<rparr>))
             \<and> (valid_packet dbg (contents cfile) off \<longrightarrow>
                  (\<exists>pkt c''. lock dbg c' off = (Inr (\<lparr> cacheIndex = 0 \<rparr>, pkt), c'')
                     \<and> logicalOffset (entries c'' ! 0) = off
                     \<and> (\<forall>k<N. 0 < k \<longrightarrow> logicalOffset (entries c'' ! k) = offs ! k)))"
    by blast
qed

theorem lock_replaces_least_recently_used_witness:
  "lockCount (scenario_cache [2, 0, 3, 0] 1) = 0
   \<and> entries (scenario_cache [2, 0, 3, 0] 1) \<noteq> []
   \<and> 8 \<notin> logicalOffset ` set (entries (scenario_cache [2, 0, 3, 0] 1))
   \<and> (\<exists>j. is_lru (entries (scenario_cache [2, 0, 3, 0] 1)) j
         \<and> lock False (scenario_cache [2, 0, 3, 0] 1) 8 =
             (case readPacket False (scenario_cache [2, 0, 3, 0] 1) j 8 of
                (Some e, c1) \<Rightarrow> (Inl e, c1)
              | (None, c1) \<Rightarrow>
                  (Inr (\<lparr> cacheIndex = j \<rparr>, buffer (entries c1 ! j)),
                   c1 \<lparr> lockCount := lockCount c1 + 1 \<rparr>)))
   \<and> PacketReadCache_ctor scenario_file 2 (\<lambda>i. [])
       = Inr \<lparr> lockCount = 0, useCount = 0, cFile = scenario_file,
               entries = [\<lparr> logicalOffset = 0, buffer = replicate 65536 0, lastUsed = 0 \<rparr>,
                          \<lparr> logicalOffset = 0, buffer = replicate 65536 0, lastUsed = 0 \<rparr>] \<rparr>
   \<and> valid_packet False (contents scenario_file) 4
   \<and> valid_packet False (contents scenario_file) 16
   \<and> valid_packet False (contents scenario_file) 20
   \<and> (\<exists>c'. lock_release_all False
               \<lparr> lockCount = 0, useCount = 0, cFile = scenario_file,
                 entries = [\<lparr> logicalOffset = 0, buffer = replicate 65536 0, lastUsed = 0 \<rparr>,
                            \<lparr> logicalOffset = 0, buffer = replicate 65536 0, lastUsed = 0 \<rparr>] \<rparr>
               [4, 16] = Some ([0 ..< 2], c')
         \<and> logicalOffset (entries c' ! 0) = 4
         \<and> is_lru (entries c') 0
         \<and> (\<exists>pkt c''. lock False c' 20 = (Inr (\<lparr> cacheIndex = 0 \<rparr>, pkt), c'')
               \<and> logicalOffset (entries c'' ! 0) = 20
               \<and> logicalOffset (entries c'' ! 1) = 16))"
proof -
  have ctor: "PacketReadCache_ctor scenario_file 2 (\<lambda>i. [])
       = Inr \<lparr> lockCount = 0, useCount = 0, cFile = scenario_file,
               entries = [\<lparr> logicalOffset = 0, buffer = replicate 65536 0, lastUsed = 0 \<rparr>,
                          \<lparr> logicalOffset = 0, buffer = replicate 65536 0, lastUsed = 0 \<rparr>] \<rparr>"
    by (simp add: PacketReadCache_ctor_def new_char_array_def E57_DATA_PACKET_MAX_def upt_conv_Cons)
  have hyp1: "lockCount (scenario_cache [2, 0, 3, 0] 1) = 0 \<and> (8 :: 64 word) \<noteq> 0
     \<and> entries (scenario_cache [2, 0, 3, 0] 1) \<noteq> []
     \<and> 8 \<notin> logicalOffset ` set (entries (scenario_cache [2, 0, 3, 0] 1))"
    by (simp add: scenario_cache_def)
  have hyp2: "PacketReadCache_ctor scenario_file 2 (\<lambda>i. [])
       = Inr \<lparr> lockCount = 0, useCount = 0, cFile = scenario_file,
               entries = [\<lparr> logicalOffset = 0, buffer = replicate 65536 0, lastUsed = 0 \<rparr>,
                          \<lparr> logicalOffset = 0, buffer = replicate 65536 0, lastUsed = 0 \<rparr>] \<rparr>
     \<and> length [4, 16 :: 64 word] = 2 \<and> (2 :: nat) < 4294967296
     \<and> distinct [4, 16 :: 64 word] \<and> 0 \<notin> set [4, 16 :: 64 word]
     \<and> (\<forall>x\<in>set [4, 16]. valid_packet False (contents scenario_file) x)
     \<and> (20 :: 64 word) \<noteq> 0 \<and> 20 \<notin> set [4, 16 :: 64 word]"
    using ctor scenario_valid by simp
  note inst = lock_replaces_least_recently_used
    [of "scenario_cache [2, 0, 3, 0] 1" 8 False scenario_file 2 "\<lambda>i. []"
        "\<lparr> lockCount = 0, useCount = 0, cFile = scenario_file,
               entries = [\<lparr> logicalOffset = 0, buffer = replicate 65536 0, lastUsed = 0 \<rparr>,
                          \<lparr> logicalOffset = 0, buffer = replicate 65536 0, lastUsed = 0 \<rparr>] \<rparr>"
        "[4, 16]"]
  note inst2 = lock_replaces_least_recently_used
    [of "scenario_cache [2, 0, 3, 0] 1" 20 False scenario_file 2 "\<lambda>i. []"
        "\<lparr> lockCount = 0, useCount = 0, cFile = scenario_file,
               entries = [\<lparr> logicalOffset = 0, buffer = replicate 65536 0, lastUsed = 0 \<rparr>,
                          \<lparr> logicalOffset = 0, buffer = replicate 65536 0, lastUsed = 0 \<rparr>] \<rparr>"
        "[4, 16]"]
  from inst hyp1 have part1: "\<exists>j. is_lru (entries (scenario_cache [2, 0, 3, 0] 1)) j
         \<and> lock False (scenario_cache [2, 0, 3, 0] 1) 8 =
             (case readPacket False (scenario_cache [2, 0, 3, 0] 1) j 8 of
                (Some e, c1) \<Rightarrow> (Inl e, c1)
              | (None, c1) \<Rightarrow>
                  (Inr (\<lparr> cacheIndex = j \<rparr>, buffer (entries c1 ! j)),
                   c1 \<lparr> lockCount := lockCount c1 + 1 \<rparr>))"
    by blast
  from inst2 hyp2 scenario_valid(3) obtain c' pkt c'' where
    "lock_release_all False
               \<lparr> lockCount = 0, useCount = 0, cFile = scenario_file,
                 entries = [\<lparr> logicalOffset = 0, buffer = replicate 65536 0, lastUsed = 0 \<rparr>,
                            \<lparr> logicalOffset = 0, buffer = replicate 65536 0, lastUsed = 0 \<rparr>] \<rparr>
               [4, 16] = Some ([0 ..< 2], c')"
    and "\<forall>k<2. logicalOffset (entries c' ! k) = [4, 16] ! k"
    and "is_lru (entries c') 0"
    and "lock False c' 20 = (Inr (\<lparr> cacheIndex = 0 \<rparr>, pkt), c'')"
    and "logicalOffset (entries c'' ! 0) = 20"
    and "\<forall>k<2. 0 < k \<longrightarrow> logicalOffset (entries c'' ! k) = [4, 16] ! k"
    by blast
  then have part2: "\<exists>c'. lock_release_all False
               \<lparr> lockCount = 0, useCount = 0, cFile = scenario_file,
                 entries = [\<lparr> logicalOffset = 0, buffer = replicate 65536 0, lastUsed = 0 \<rparr>,
                            \<lparr> logicalOffset = 0, buffer = replicate 65536 0, lastUsed = 0 \<rparr>] \<rparr>
               [4, 16] = Some ([0 ..< 2], c')
         \<and> logicalOffset (entries c' ! 0) = 4
         \<and> is_lru (entries c') 0
         \<and> (\<exists>pkt c''. lock False c' 20 = (Inr (\<lparr> cacheIndex = 0 \<rparr>, pkt), c'')
               \<and> logicalOffset (entries c'' ! 0) = 20
               \<and> logicalOffset (entries c'' ! 1) = 16)"
    by force
  from hyp1 part1 ctor scenario_valid part2 show ?thesis by blast
qed

end
